theory Spec2Isabelle
  imports Complex_Main
begin

section \<open>The physics kernel set of \<^verbatim>\<open>sailfish/lib_srhd.py\<close>\<close>

text \<open>
  The device functions of \<^verbatim>\<open>lib_srhd.py\<close> are C functions over \<^verbatim>\<open>double\<close>
  buffers. They are embedded here with \<^verbatim>\<open>double\<close> read as \<^typ>\<open>real\<close> (exact
  arithmetic, no rounding, no NaN) and a buffer \<^verbatim>\<open>double *\<close> read as a \<^typ>\<open>real list\<close>
  that the function returns updated. The compile-time macro \<^verbatim>\<open>NPRIM\<close> (3, 4 or 5; any
  other value is a compile error) is the datatype \<open>nprim\<close>, and the index macros are
  functions of it where they depend on it. \<^verbatim>\<open>GAMMA_LAW_INDEX\<close> has its default 5/3.
  A local array that the C code leaves uninitialised and then fills is a list of zeros.
\<close>

datatype nprim = NPRIM3 | NPRIM4 | NPRIM5

fun NCONS :: "nprim \<Rightarrow> nat" where
  "NCONS NPRIM3 = 3"
| "NCONS NPRIM4 = 4"
| "NCONS NPRIM5 = 5"

fun NVECS :: "nprim \<Rightarrow> nat" where
  "NVECS NPRIM3 = 1"
| "NVECS NPRIM4 = 2"
| "NVECS NPRIM5 = 3"

definition RHO :: nat where "RHO = 0"
definition UXX :: nat where "UXX = 1"
definition UYY :: nat where "UYY = 2"
definition UZZ :: nat where "UZZ = 3"

fun PRE :: "nprim \<Rightarrow> nat" where
  "PRE NPRIM3 = 2"
| "PRE NPRIM4 = 3"
| "PRE NPRIM5 = 4"

definition DEN :: nat where "DEN = 0"
definition SXX :: nat where "SXX = 1"
definition SYY :: nat where "SYY = 2"
definition SZZ :: nat where "SZZ = 3"

fun NRG :: "nprim \<Rightarrow> nat" where
  "NRG NPRIM3 = 2"
| "NRG NPRIM4 = 3"
| "NRG NPRIM5 = 4"

definition GAMMA_LAW_INDEX :: real where
  "GAMMA_LAW_INDEX = 5 / 3"

definition min2 :: "real \<Rightarrow> real \<Rightarrow> real" where
  "min2 a b = (if a < b then a else b)"

definition max2 :: "real \<Rightarrow> real \<Rightarrow> real" where
  "max2 a b = (if a > b then a else b)"

definition min3 :: "real \<Rightarrow> real \<Rightarrow> real \<Rightarrow> real" where
  "min3 a b c = min2 a (min2 b c)"

definition max3 :: "real \<Rightarrow> real \<Rightarrow> real \<Rightarrow> real" where
  "max3 a b c = max2 a (max2 b c)"

subsection \<open>Primitive to conserved\<close>

fun prim_to_cons :: "nprim \<Rightarrow> real list \<Rightarrow> real list \<Rightarrow> real list" where
  "prim_to_cons NPRIM3 p u =
    (let rho = p ! RHO;
         gbx = p ! UXX;
         pre = p ! PRE NPRIM3;
         w = sqrt (1 + gbx * gbx);
         h = 1 + pre / rho * (1 + 1 / (GAMMA_LAW_INDEX - 1));
         m = rho * w
     in u[DEN := m, SXX := m * h * gbx, NRG NPRIM3 := m * (h * w - 1) - pre])"
| "prim_to_cons NPRIM4 p u =
    (let rho = p ! RHO;
         gbx = p ! UXX;
         gby = p ! UYY;
         pre = p ! PRE NPRIM4;
         w = sqrt (1 + gbx * gbx + gby * gby);
         h = 1 + pre / rho * (1 + 1 / (GAMMA_LAW_INDEX - 1));
         m = rho * w
     in u[DEN := m, SXX := m * h * gbx, SYY := m * h * gby,
          NRG NPRIM4 := m * (h * w - 1) - pre])"
| "prim_to_cons NPRIM5 p u =
    (let rho = p ! RHO;
         gbx = p ! UXX;
         gby = p ! UYY;
         gbz = p ! UZZ;
         pre = p ! PRE NPRIM5;
         w = sqrt (1 + gbx * gbx + gby * gby + gbz * gbz);
         h = 1 + pre / rho * (1 + 1 / (GAMMA_LAW_INDEX - 1));
         m = rho * w
     in u[DEN := m, SXX := m * h * gbx, SYY := m * h * gby, SZZ := m * h * gbz,
          NRG NPRIM5 := m * (h * w - 1) - pre])"

subsection \<open>Conserved to primitive: the Newton iteration on the pressure\<close>

text \<open>
  \<^verbatim>\<open>printf("c2p failed ..."); exit(1)\<close> ends the run; it is the error value
  \<open>C2P_Failed\<close>. The loop is \<^verbatim>\<open>while (1)\<close>, so it is a partial function into
  \<open>option\<close>: not returning would be \<open>None\<close>. It returns the locals the code reads
  after the loop (\<^verbatim>\<open>pre\<close>, \<^verbatim>\<open>w0\<close>) and the counter \<^verbatim>\<open>iteration\<close>.
\<close>

datatype c2p_error = C2P_Failed

definition newton_iter_max :: int where
  "newton_iter_max = 50"

definition error_tolerance :: real where
  "error_tolerance = 1 / 10 ^ 12"

partial_function (option) newton_loop ::
  "real \<Rightarrow> real \<Rightarrow> real \<Rightarrow> real \<Rightarrow> int \<Rightarrow> (c2p_error + real \<times> real \<times> int) option"
where
  "newton_loop m tau ss pre iteration =
    (let gm = GAMMA_LAW_INDEX;
         et = tau + pre + m;
         b2 = min2 (ss / et / et) (1 - 1 / 10 ^ 10);
         w2 = 1 / (1 - b2);
         w = sqrt w2;
         e = (tau + m * (1 - w) + pre * (1 - w2)) / (m * w);
         rho = m / w;
         h = 1 + e + pre / rho;
         a2 = gm * pre / (rho * h);
         f = rho * e * (gm - 1) - pre;
         g = b2 * a2 - 1;
         pre' = pre - f / g
     in if \<bar>f\<bar> < error_tolerance then Some (Inr (pre', w, iteration))
        else if iteration = newton_iter_max then Some (Inl C2P_Failed)
        else newton_loop m tau ss pre' (iteration + 1))"

fun momentum_squared :: "nprim \<Rightarrow> real list \<Rightarrow> real" where
  "momentum_squared NPRIM3 u = u ! SXX * u ! SXX"
| "momentum_squared NPRIM4 u = u ! SXX * u ! SXX + u ! SYY * u ! SYY"
| "momentum_squared NPRIM5 u = u ! SXX * u ! SXX + u ! SYY * u ! SYY + u ! SZZ * u ! SZZ"

fun store_velocity :: "nprim \<Rightarrow> real list \<Rightarrow> real \<Rightarrow> real \<Rightarrow> real list \<Rightarrow> real list" where
  "store_velocity NPRIM3 u w0 et p = p[UXX := w0 * u ! 1 / et]"
| "store_velocity NPRIM4 u w0 et p = p[UXX := w0 * u ! 1 / et, UYY := w0 * u ! 2 / et]"
| "store_velocity NPRIM5 u w0 et p =
     p[UXX := w0 * u ! 1 / et, UYY := w0 * u ! 2 / et, UZZ := w0 * u ! 3 / et]"

definition cons_to_prim ::
  "nprim \<Rightarrow> real list \<Rightarrow> real list \<Rightarrow> (c2p_error + real list) option" where
  "cons_to_prim cfg u p =
    (let m = u ! DEN;
         tau = u ! NRG cfg;
         pre0 = p ! PRE cfg;
         ss = momentum_squared cfg u
     in case newton_loop m tau ss pre0 0 of
          None \<Rightarrow> None
        | Some (Inl err) \<Rightarrow> Some (Inl err)
        | Some (Inr (pre, w0, iteration)) \<Rightarrow>
            Some (Inr (store_velocity cfg u w0 (tau + m + pre)
                         (p[RHO := m / w0, PRE cfg := pre]))))"

definition cons_to_prim_check ::
  "nprim \<Rightarrow> real list \<Rightarrow> real list \<Rightarrow> (c2p_error + int \<times> real list) option" where
  "cons_to_prim_check cfg u p =
    (case cons_to_prim cfg u p of
       None \<Rightarrow> None
     | Some (Inl err) \<Rightarrow> Some (Inl err)
     | Some (Inr p') \<Rightarrow>
         Some (Inr (if u ! DEN < 0 then 1
                    else if u ! NRG cfg < 0 then 2
                    else if p' ! PRE cfg < 0 then 3
                    else 0, p')))"

subsection \<open>Fluxes, wavespeeds and the HLLE Riemann solver\<close>

fun four_velocity :: "nprim \<Rightarrow> real list \<Rightarrow> real \<times> real \<times> real" where
  "four_velocity NPRIM3 p = (p ! UXX, 0, 0)"
| "four_velocity NPRIM4 p = (p ! UXX, p ! UYY, 0)"
| "four_velocity NPRIM5 p = (p ! UXX, p ! UYY, p ! UZZ)"

fun four_velocity_squared :: "nprim \<Rightarrow> real list \<Rightarrow> real" where
  "four_velocity_squared NPRIM3 p = p ! UXX * p ! UXX"
| "four_velocity_squared NPRIM4 p = p ! UXX * p ! UXX + p ! UYY * p ! UYY"
| "four_velocity_squared NPRIM5 p = p ! UXX * p ! UXX + p ! UYY * p ! UYY + p ! UZZ * p ! UZZ"

definition normal_velocity :: "nprim \<Rightarrow> real list \<Rightarrow> int \<Rightarrow> real" where
  "normal_velocity cfg p direction =
    (case four_velocity cfg p of (gbx, gby, gbz) \<Rightarrow>
       let w = sqrt (1 + four_velocity_squared cfg p)
       in if direction = 1 then gbx / w
          else if direction = 2 then gby / w
          else if direction = 3 then gbz / w
          else 0)"

definition flag :: "bool \<Rightarrow> real" where
  "flag b = (if b then 1 else 0)"

fun store_momentum_flux ::
  "nprim \<Rightarrow> real \<Rightarrow> real \<Rightarrow> real list \<Rightarrow> int \<Rightarrow> real list \<Rightarrow> real list" where
  "store_momentum_flux NPRIM3 vn pre u direction f =
     f[SXX := vn * u ! SXX + pre * flag (direction = 1)]"
| "store_momentum_flux NPRIM4 vn pre u direction f =
     f[SXX := vn * u ! SXX + pre * flag (direction = 1),
       SYY := vn * u ! SYY + pre * flag (direction = 2)]"
| "store_momentum_flux NPRIM5 vn pre u direction f =
     f[SXX := vn * u ! SXX + pre * flag (direction = 1),
       SYY := vn * u ! SYY + pre * flag (direction = 2),
       SZZ := vn * u ! SZZ + pre * flag (direction = 3)]"

definition prim_and_cons_to_flux ::
  "nprim \<Rightarrow> real list \<Rightarrow> real list \<Rightarrow> real list \<Rightarrow> int \<Rightarrow> real list" where
  "prim_and_cons_to_flux cfg p u f direction =
    (let pre = p ! PRE cfg;
         vn = normal_velocity cfg p direction
     in store_momentum_flux cfg vn pre u direction
          (f[DEN := vn * u ! DEN, NRG cfg := vn * u ! NRG cfg + pre * vn]))"

definition prim_to_flux :: "nprim \<Rightarrow> real list \<Rightarrow> real list \<Rightarrow> int \<Rightarrow> real list" where
  "prim_to_flux cfg p f direction =
    (let u = prim_to_cons cfg p (replicate (NCONS cfg) 0)
     in prim_and_cons_to_flux cfg p u f direction)"

definition sound_speed_squared :: "nprim \<Rightarrow> real list \<Rightarrow> real" where
  "sound_speed_squared cfg p =
    (let rho = p ! DEN;
         pre = p ! PRE cfg;
         rhoh = rho + pre * (1 + 1 / (GAMMA_LAW_INDEX - 1))
     in pre / rhoh * GAMMA_LAW_INDEX)"

definition outer_wavespeeds :: "nprim \<Rightarrow> real list \<Rightarrow> real list \<Rightarrow> int \<Rightarrow> real list" where
  "outer_wavespeeds cfg p wavespeeds direction =
    (let uu = four_velocity_squared cfg p;
         vn = normal_velocity cfg p direction;
         a2 = sound_speed_squared cfg p;
         vv = uu / (1 + uu);
         v2 = vn * vn;
         k0 = sqrt (a2 * (1 - vv) * (1 - vv * a2 - v2 * (1 - a2)))
     in wavespeeds[0 := (vn * (1 - a2) - k0) / (1 - vv * a2),
                   1 := (vn * (1 - a2) + k0) / (1 - vv * a2)])"

fun max_wavespeed :: "nprim \<Rightarrow> real list \<Rightarrow> real" where
  "max_wavespeed NPRIM3 p =
    (let ai = outer_wavespeeds NPRIM3 p [0, 0] 1
     in max2 \<bar>ai ! 0\<bar> \<bar>ai ! 1\<bar>)"
| "max_wavespeed NPRIM4 p =
    (let ai = outer_wavespeeds NPRIM4 p [0, 0] 1;
         aj = outer_wavespeeds NPRIM4 p [0, 0] 2
     in max2 (max2 \<bar>ai ! 0\<bar> \<bar>ai ! 1\<bar>) (max2 \<bar>aj ! 0\<bar> \<bar>aj ! 1\<bar>))"
| "max_wavespeed NPRIM5 p =
    (let ai = outer_wavespeeds NPRIM5 p [0, 0] 1;
         aj = outer_wavespeeds NPRIM5 p [0, 0] 2;
         ak = outer_wavespeeds NPRIM5 p [0, 0] 3
     in max3 (max2 \<bar>ai ! 0\<bar> \<bar>ai ! 1\<bar>) (max2 \<bar>aj ! 0\<bar> \<bar>aj ! 1\<bar>)
             (max2 \<bar>ak ! 0\<bar> \<bar>ak ! 1\<bar>))"

definition riemann_hlle ::
  "nprim \<Rightarrow> real list \<Rightarrow> real list \<Rightarrow> real list \<Rightarrow> int \<Rightarrow> real list" where
  "riemann_hlle cfg pl pr flux direction =
    (let ul = prim_to_cons cfg pl (replicate (NCONS cfg) 0);
         ur = prim_to_cons cfg pr (replicate (NCONS cfg) 0);
         fl = prim_and_cons_to_flux cfg pl ul (replicate (NCONS cfg) 0) direction;
         fr = prim_and_cons_to_flux cfg pr ur (replicate (NCONS cfg) 0) direction;
         al = outer_wavespeeds cfg pl [0, 0] direction;
         ar = outer_wavespeeds cfg pr [0, 0] direction;
         am = min3 0 (al ! 0) (ar ! 0);
         ap = max3 0 (al ! 1) (ar ! 1)
     in fold (\<lambda>q flux.
                flux[q := (fl ! q * ap - fr ! q * am - (ul ! q - ur ! q) * ap * am) / (ap - am)])
             [0..<NCONS cfg] flux)"

subsection \<open>One pass of the Newton loop, for reasoning about it\<close>

text \<open>
  \<open>newton_pass\<close> is the body of the \<^verbatim>\<open>while\<close> loop of \<^verbatim>\<open>cons_to_prim\<close> up to the
  update of \<^verbatim>\<open>pre\<close>: it gives the residual \<^verbatim>\<open>f\<close>, the updated pressure and the
  Lorentz factor \<^verbatim>\<open>w\<close> of the pass. The loop \<open>newton_loop\<close> above is stated without
  it; the lemma \<open>newton_loop_step\<close> below relates the two.
\<close>

definition newton_pass :: "real \<Rightarrow> real \<Rightarrow> real \<Rightarrow> real \<Rightarrow> real \<times> real \<times> real" where
  "newton_pass m tau ss pre =
    (let gm = GAMMA_LAW_INDEX;
         et = tau + pre + m;
         b2 = min2 (ss / et / et) (1 - 1 / 10 ^ 10);
         w2 = 1 / (1 - b2);
         w = sqrt w2;
         e = (tau + m * (1 - w) + pre * (1 - w2)) / (m * w);
         rho = m / w;
         h = 1 + e + pre / rho;
         a2 = gm * pre / (rho * h);
         f = rho * e * (gm - 1) - pre;
         g = b2 * a2 - 1
     in (f, pre - f / g, w))"

fun NPRIM :: "nprim \<Rightarrow> nat" where
  "NPRIM NPRIM3 = 3"
| "NPRIM NPRIM4 = 4"
| "NPRIM NPRIM5 = 5"

text \<open>
  On a pass whose velocity is clamped, with the conserved state of the example of claim C2,
  the residual is \<open>- kappa * pre\<close>.
\<close>

definition kappa :: real where
  "kappa = 1 + 2 / 3 * (1 - 1 / 10 ^ 10)"

section \<open>The patch solver of \<^verbatim>\<open>sailfish/solvers/srhd_2d.py\<close>\<close>

text \<open>
  A numpy array of shape \<open>(rows, nj, nq)\<close> is a list of rows, a row being a list of
  \<open>nj\<close> cells of \<open>nq\<close> numbers. Every buffer of a patch is such an array, and the
  boundary exchange slices it along the first axis only. An in-place update of an array
  or of an attribute is explicit state passing: the function returns the new patch or the
  new solver. A Python exception is an error value on the left of a sum. The scoped
  execution context (\<^verbatim>\<open>with self.execution_context:\<close>) is bookkeeping of the device a
  kernel runs on and is not modelled beyond the device number of the patch.
\<close>

datatype py_error = ValueError | IndexError | AttributeError

type_synonym array3 = "real list list list"

type_synonym array2 = "real list list"

definition and_then :: "'e + 'a \<Rightarrow> ('a \<Rightarrow> 'e + 'b) \<Rightarrow> 'e + 'b" where
  "and_then r f = (case r of Inl err \<Rightarrow> Inl err | Inr x \<Rightarrow> f x)"

fun fold_err :: "('a \<Rightarrow> 's \<Rightarrow> 'e + 's) \<Rightarrow> 'a list \<Rightarrow> 's \<Rightarrow> 'e + 's" where
  "fold_err f [] s = Inr s"
| "fold_err f (x # xs) s = and_then (f x s) (fold_err f xs)"

subsection \<open>Slices and indices of numpy, along the first axis\<close>

text \<open>
  A slice bound is \<open>None\<close> where the source leaves it out. A negative bound counts from
  the end, and bounds are clipped to the array. Assigning to a slice needs a value with as
  many rows as the slice has, or with one row (which numpy broadcasts); anything else is a
  \<^verbatim>\<open>ValueError\<close>. An index out of range is an \<^verbatim>\<open>IndexError\<close>.
\<close>

definition slice_bound :: "nat \<Rightarrow> int option \<Rightarrow> nat \<Rightarrow> nat" where
  "slice_bound n bound dflt =
    (case bound of
       None \<Rightarrow> dflt
     | Some k \<Rightarrow> if k < 0 then nat (int n + k) else min n (nat k))"

definition py_slice :: "'a list \<Rightarrow> int option \<Rightarrow> int option \<Rightarrow> 'a list" where
  "py_slice xs start stop =
    (let a = slice_bound (length xs) start 0;
         b = slice_bound (length xs) stop (length xs)
     in take (b - a) (drop a xs))"

definition py_slice_assign ::
  "'a list \<Rightarrow> int option \<Rightarrow> int option \<Rightarrow> 'a list \<Rightarrow> py_error + 'a list" where
  "py_slice_assign xs start stop v =
    (let a = slice_bound (length xs) start 0;
         b = slice_bound (length xs) stop (length xs);
         k = b - a
     in if length v = k then Inr (take a xs @ v @ drop (a + k) xs)
        else if length v = 1 then Inr (take a xs @ replicate k (hd v) @ drop (a + k) xs)
        else Inl ValueError)"

definition py_position :: "nat \<Rightarrow> int \<Rightarrow> py_error + nat" where
  "py_position n i =
    (if 0 \<le> i \<and> i < int n then Inr (nat i)
     else if i < 0 \<and> 0 \<le> int n + i then Inr (nat (int n + i))
     else Inl IndexError)"

definition py_index :: "'a list \<Rightarrow> int \<Rightarrow> py_error + 'a" where
  "py_index xs i = and_then (py_position (length xs) i) (\<lambda>k. Inr (xs ! k))"

definition py_index_assign :: "'a list \<Rightarrow> int \<Rightarrow> 'a \<Rightarrow> py_error + 'a list" where
  "py_index_assign xs i v = and_then (py_position (length xs) i) (\<lambda>k. Inr (xs[k := v]))"

definition py_range :: "int \<Rightarrow> int \<Rightarrow> int list" where
  "py_range a b = map (\<lambda>k. a + int k) [0..<nat (b - a)]"

definition zeros3 :: "nat \<Rightarrow> nat \<Rightarrow> nat \<Rightarrow> array3" where
  "zeros3 n nj nq = replicate n (replicate nj (replicate nq 0))"

definition zeros2 :: "nat \<Rightarrow> nat \<Rightarrow> array2" where
  "zeros2 n nj = replicate n (replicate nj 0)"

definition zeros_like :: "array3 \<Rightarrow> array3" where
  "zeros_like a = map (map (map (\<lambda>x. 0))) a"

subsection \<open>The external collaborators\<close>

text \<open>
  The mesh and the setup are objects of other modules; they are records of the attributes
  and methods that this file reads. \<open>mesh_scale_factor_derivative\<close> is \<open>None\<close> where
  \<^verbatim>\<open>float(mesh.scale_factor_derivative)\<close> raises \<^verbatim>\<open>TypeError\<close> or
  \<^verbatim>\<open>AttributeError\<close>.
\<close>

record mesh =
  mesh_shape :: "nat \<times> nat"
  mesh_faces :: "nat \<Rightarrow> nat \<Rightarrow> real list"
  mesh_polar_extent :: real
  mesh_scale_factor :: "real \<Rightarrow> real"
  mesh_scale_factor_derivative :: "real option"
  mesh_cell_coordinates :: "real \<Rightarrow> nat \<Rightarrow> nat \<Rightarrow> real \<times> real"

record problem_setup =
  boundary_condition :: string
  primitive_at :: "real \<Rightarrow> real \<times> real \<Rightarrow> real list \<Rightarrow> real list"

text \<open>
  Modelled from the spec: the kernels \<^verbatim>\<open>srhd_2d_primitive_to_conserved\<close>,
  \<^verbatim>\<open>srhd_2d_conserved_to_primitive\<close>, \<^verbatim>\<open>srhd_2d_advance_rk\<close> and
  \<^verbatim>\<open>srhd_2d_max_wavespeeds\<close> are compiled from \<^verbatim>\<open>srhd_2d.c\<close>, which is not among the
  sources. Each is a parameter: a function of the arguments the Python code passes, which
  returns the new content of the one buffer the spec says the kernel writes (the conserved
  array, the primitive buffer, the scratch buffer \<^verbatim>\<open>conserved2\<close>, the wavespeed buffer).
\<close>

record library =
  srhd_2d_primitive_to_conserved ::
    "real list \<Rightarrow> array3 \<Rightarrow> array3 \<Rightarrow> real \<Rightarrow> real \<Rightarrow> array3"
  srhd_2d_conserved_to_primitive ::
    "real list \<Rightarrow> array3 \<Rightarrow> array3 \<Rightarrow> real \<Rightarrow> real \<Rightarrow> array3"
  srhd_2d_advance_rk ::
    "real list \<Rightarrow> array3 \<Rightarrow> array3 \<Rightarrow> array3 \<Rightarrow> array3 \<Rightarrow> real \<Rightarrow> real \<Rightarrow> real \<Rightarrow> real
       \<Rightarrow> real \<Rightarrow> real \<Rightarrow> array3"
  srhd_2d_max_wavespeeds :: "real list \<Rightarrow> array3 \<Rightarrow> array2 \<Rightarrow> real \<Rightarrow> array2"

text \<open>
  Modelled from the spec: \<^verbatim>\<open>sailfish.subdivide.subdivide\<close> is not among the sources. The
  spec (4.4) asks for \<open>P\<close> contiguous ranges that cover \<open>[0, N)\<close>, with widths that differ
  by at most one and the remainder given to the first \<open>N mod P\<close> patches.
\<close>

definition subdivide :: "nat \<Rightarrow> nat \<Rightarrow> (nat \<times> nat) list" where
  "subdivide n p =
    map (\<lambda>i. (i * (n div p) + min i (n mod p), Suc i * (n div p) + min (Suc i) (n mod p)))
        [0..<p]"

subsection \<open>Patch\<close>

record patch =
  lib :: library
  shape :: "nat \<times> nat"
  faces :: "real list"
  polar_extent :: real
  execution_context :: nat
  scale_factor_initial :: real
  scale_factor_derivative :: real
  time :: real
  time0 :: real
  wavespeeds :: array2
  primitive1 :: array3
  conserved0 :: array3
  conserved1 :: array3
  conserved2 :: array3

definition Patch_init ::
  "real \<Rightarrow> array3 \<Rightarrow> mesh \<Rightarrow> nat \<times> nat \<Rightarrow> library \<Rightarrow> nat \<Rightarrow> patch" where
  "Patch_init t conserved msh index_range l ctx =
    (case index_range of (i0, i1) \<Rightarrow>
       \<lparr> lib = l,
         shape = (i1 - i0, snd (mesh_shape msh)),
         faces = mesh_faces msh i0 i1,
         polar_extent = mesh_polar_extent msh,
         execution_context = ctx,
         scale_factor_initial =
           (case mesh_scale_factor_derivative msh of Some adot \<Rightarrow> 0 | None \<Rightarrow> 1),
         scale_factor_derivative =
           (case mesh_scale_factor_derivative msh of Some adot \<Rightarrow> adot | None \<Rightarrow> 0),
         time = t,
         time0 = t,
         wavespeeds = zeros2 (i1 - i0) (snd (mesh_shape msh)),
         primitive1 = zeros_like conserved,
         conserved0 = conserved,
         conserved1 = conserved,
         conserved2 = conserved \<rparr>)"

definition scale_factor :: "patch \<Rightarrow> real" where
  "scale_factor p = scale_factor_initial p + scale_factor_derivative p * time p"

definition recompute_primitive :: "patch \<Rightarrow> patch" where
  "recompute_primitive p =
    p\<lparr>primitive1 :=
        srhd_2d_conserved_to_primitive (lib p) (faces p) (conserved1 p) (primitive1 p)
          (polar_extent p) (scale_factor p)\<rparr>"

definition Patch_advance_rk :: "real \<Rightarrow> real \<Rightarrow> patch \<Rightarrow> patch" where
  "Patch_advance_rk rk_param dt p =
    (let scratch = srhd_2d_advance_rk (lib p) (faces p) (conserved0 p) (primitive1 p)
                     (conserved1 p) (conserved2 p) (polar_extent p) (scale_factor_initial p)
                     (scale_factor_derivative p) (time p) rk_param dt
     in p\<lparr>time := time0 p * rk_param + (time p + dt) * (1 - rk_param),
          conserved1 := scratch,
          conserved2 := conserved1 p\<rparr>)"

definition array_max :: "array2 \<Rightarrow> py_error + real" where
  "array_max a =
    (case concat a of
       [] \<Rightarrow> Inl ValueError
     | x # xs \<Rightarrow> Inr (fold max xs x))"

definition Patch_maximum_wavespeed :: "patch \<Rightarrow> py_error + real \<times> patch" where
  "Patch_maximum_wavespeed p =
    (let p1 = recompute_primitive p;
         ws = srhd_2d_max_wavespeeds (lib p1) (faces p1) (primitive1 p1) (wavespeeds p1)
                (scale_factor_derivative p1)
     in and_then (array_max ws) (\<lambda>a. Inr (a, p1\<lparr>wavespeeds := ws\<rparr>)))"

definition Patch_new_iteration :: "patch \<Rightarrow> patch" where
  "Patch_new_iteration p = p\<lparr>time0 := time p, conserved0 := conserved1 p\<rparr>"

subsection \<open>Solver\<close>

record solver =
  solver_mesh :: mesh
  solver_setup :: problem_setup
  num_guard :: nat
  num_cons :: nat
  patches :: "patch list"

definition initial_condition :: "problem_setup \<Rightarrow> mesh \<Rightarrow> real \<Rightarrow> array3" where
  "initial_condition stp msh t =
    map (\<lambda>i. map (\<lambda>j. primitive_at stp t (mesh_cell_coordinates msh t i j) (replicate 4 0))
               [0..<snd (mesh_shape msh)])
        [0..<fst (mesh_shape msh)]"

text \<open>
  The constructor. \<^verbatim>\<open>get_array_module\<close>, the reading of the kernel source, the
  \<^verbatim>\<open>Library\<close> and the logger come first in the source and are taken to succeed; the
  library they build is the parameter \<open>l\<close>, and \<open>num_devices\<close> is what
  \<^verbatim>\<open>num_devices(mode)\<close> returns. \<open>initial_conserved\<close> is the local array
  \<^verbatim>\<open>conserved\<close>: the given solution, or the kernel's conversion of the initial condition.
\<close>

definition new_patch ::
  "real \<Rightarrow> array3 \<Rightarrow> mesh \<Rightarrow> library \<Rightarrow> nat \<Rightarrow> nat \<Rightarrow> nat \<Rightarrow> nat \<times> nat \<Rightarrow> py_error + patch"
  where
  "new_patch t conserved msh l ng nq ctx index_range =
    (case index_range of (a, b) \<Rightarrow>
       and_then
         (py_slice_assign (zeros3 (b - a + 2 * ng) (snd (mesh_shape msh)) nq)
            (Some (int ng)) (Some (- int ng)) (py_slice conserved (Some (int a)) (Some (int b))))
         (\<lambda>cons. Inr (Patch_init t cons msh (a, b) l ctx)))"

fun new_patches ::
  "real \<Rightarrow> array3 \<Rightarrow> mesh \<Rightarrow> library \<Rightarrow> nat \<Rightarrow> nat \<Rightarrow> nat \<Rightarrow> nat \<Rightarrow> (nat \<times> nat) list
     \<Rightarrow> py_error + patch list" where
  "new_patches t conserved msh l ng nq num_devices n [] = Inr []"
| "new_patches t conserved msh l ng nq num_devices n (r # rs) =
     and_then (new_patch t conserved msh l ng nq (n mod num_devices) r)
       (\<lambda>p. and_then (new_patches t conserved msh l ng nq num_devices (Suc n) rs)
               (\<lambda>ps. Inr (p # ps)))"

definition initial_conserved ::
  "library \<Rightarrow> problem_setup \<Rightarrow> mesh \<Rightarrow> real \<Rightarrow> array3 option \<Rightarrow> array3" where
  "initial_conserved l stp msh t solution =
    (case solution of
       None \<Rightarrow>
         (let primitive = initial_condition stp msh t
          in srhd_2d_primitive_to_conserved l
               (mesh_faces msh 0 (fst (mesh_shape msh))) primitive
               (zeros_like primitive) (mesh_polar_extent msh)
               (mesh_scale_factor msh t))
     | Some given \<Rightarrow> given)"

definition Solver_init ::
  "library \<Rightarrow> nat \<Rightarrow> problem_setup \<Rightarrow> mesh \<Rightarrow> real \<Rightarrow> array3 option \<Rightarrow> nat
     \<Rightarrow> py_error + solver" where
  "Solver_init l num_devices stp msh t solution num_patches =
    (let ng = 2; nq = 4
     in if boundary_condition stp \<noteq> ''outflow'' then Inl ValueError
        else
          let conserved = initial_conserved l stp msh t solution
          in and_then
               (new_patches t conserved msh l ng nq num_devices 0
                  (subdivide (fst (mesh_shape msh)) num_patches))
               (\<lambda>ps. Inr \<lparr> solver_mesh = msh, solver_setup = stp, num_guard = ng,
                              num_cons = nq, patches = ps \<rparr>))"

definition for_each_patch :: "(patch \<Rightarrow> patch) \<Rightarrow> solver \<Rightarrow> solver" where
  "for_each_patch f s =
    fold (\<lambda>i s. s\<lparr>patches := (patches s)[i := f (patches s ! i)]\<rparr>) [0..<length (patches s)] s"

definition Solver_maximum_wavespeed :: "solver \<Rightarrow> real" where
  "Solver_maximum_wavespeed s = 1"

definition Solver_new_iteration :: "solver \<Rightarrow> solver" where
  "Solver_new_iteration s = for_each_patch Patch_new_iteration s"

subsection \<open>The boundary exchange\<close>

text \<open>
  \<^verbatim>\<open>getattr(patch, array)\<close> is modelled for the four buffers that carry guard rows; any
  other name is an \<^verbatim>\<open>AttributeError\<close> here. The source passes the arrays \<^verbatim>\<open>pl\<close>,
  \<^verbatim>\<open>pc\<close>, \<^verbatim>\<open>pr\<close> by reference, and they are the same object when the patch is its
  own neighbour; the model passes the indices of the patches and reads each array from the
  solver when the source reads it.
\<close>

definition getattr_array :: "patch \<Rightarrow> string \<Rightarrow> py_error + array3" where
  "getattr_array p name =
    (if name = ''primitive1'' then Inr (primitive1 p)
     else if name = ''conserved0'' then Inr (conserved0 p)
     else if name = ''conserved1'' then Inr (conserved1 p)
     else if name = ''conserved2'' then Inr (conserved2 p)
     else Inl AttributeError)"

definition store_array :: "patch \<Rightarrow> string \<Rightarrow> array3 \<Rightarrow> patch" where
  "store_array p name a =
    (if name = ''primitive1'' then p\<lparr>primitive1 := a\<rparr>
     else if name = ''conserved0'' then p\<lparr>conserved0 := a\<rparr>
     else if name = ''conserved1'' then p\<lparr>conserved1 := a\<rparr>
     else if name = ''conserved2'' then p\<lparr>conserved2 := a\<rparr>
     else p)"

definition store_patch_array :: "solver \<Rightarrow> string \<Rightarrow> nat \<Rightarrow> array3 \<Rightarrow> solver" where
  "store_patch_array s name i a = s\<lparr>patches := (patches s)[i := store_array (patches s ! i) name a]\<rparr>"

definition outflow_left :: "nat \<Rightarrow> 'a list \<Rightarrow> py_error + 'a list" where
  "outflow_left ng pc =
    fold_err (\<lambda>i pc. and_then (py_index pc (int ng)) (py_index_assign pc i))
      (py_range 0 (int ng)) pc"

definition outflow_right :: "nat \<Rightarrow> 'a list \<Rightarrow> py_error + 'a list" where
  "outflow_right ng pc =
    fold_err (\<lambda>i pc. and_then (py_index pc (- int ng - 1)) (py_index_assign pc i))
      (py_range (int (length pc) - int ng) (int (length pc))) pc"

definition set_bc_patch :: "solver \<Rightarrow> string \<Rightarrow> nat \<Rightarrow> nat \<Rightarrow> nat \<Rightarrow> py_error + solver" where
  "set_bc_patch s name il i0 ir =
    (let ng = int (num_guard s)
     in and_then (getattr_array (patches s ! il) name) (\<lambda>pl.
        and_then (getattr_array (patches s ! i0) name) (\<lambda>pc.
        and_then (py_slice_assign pc None (Some ng) (py_slice pl (Some (- 2 * ng)) (Some (- ng))))
          (\<lambda>pc1.
        and_then (getattr_array (patches (store_patch_array s name i0 pc1) ! ir) name) (\<lambda>pr.
        and_then (py_slice_assign pc1 (Some (- ng)) None (py_slice pr (Some ng) (Some (2 * ng))))
          (\<lambda>pc2.
        and_then (if i0 = 0 then outflow_left (num_guard s) pc2 else Inr pc2) (\<lambda>pc3.
        and_then (if int i0 = int (length (patches s)) - 1 then outflow_right (num_guard s) pc3
                  else Inr pc3) (\<lambda>pc4.
        Inr (store_patch_array s name i0 pc4)))))))))"

definition set_bc :: "solver \<Rightarrow> string \<Rightarrow> py_error + solver" where
  "set_bc s name =
    fold_err (\<lambda>i0 s. let num_patches = length (patches s);
                          il = (i0 + num_patches - 1) mod num_patches;
                          ir = (i0 + num_patches + 1) mod num_patches
                      in set_bc_patch s name il i0 ir)
      [0..<length (patches s)] s"

subsection \<open>The Runge-Kutta driver\<close>

definition bs_rk1 :: "real list" where "bs_rk1 = [0 / 1]"

definition bs_rk2 :: "real list" where "bs_rk2 = [0 / 1, 1 / 2]"

definition bs_rk3 :: "real list" where "bs_rk3 = [0 / 1, 3 / 4, 1 / 3]"

definition Solver_advance_rk :: "real \<Rightarrow> real \<Rightarrow> solver \<Rightarrow> py_error + solver" where
  "Solver_advance_rk rk_param dt s =
    and_then (set_bc (for_each_patch recompute_primitive s) ''primitive1'')
      (\<lambda>s. Inr (for_each_patch (Patch_advance_rk rk_param dt) s))"

definition Solver_advance :: "solver \<Rightarrow> real \<Rightarrow> py_error + solver" where
  "Solver_advance s dt =
    fold_err (\<lambda>b s. Solver_advance_rk b dt s) bs_rk2 (Solver_new_iteration s)"

subsection \<open>Notions for stating the properties of the exchange\<close>

text \<open>
  The interior of an array with \<open>ng\<close> guard rows on each side, the last rows of a list,
  the buffer names \<^verbatim>\<open>getattr\<close> is modelled for, and the array a patch holds under such
  a name. \<open>exchanged_array ng as i\<close> is what the claims say patch \<open>i\<close> holds after the
  exchange, given the arrays \<open>as\<close> of all patches before it: its own interior, on the left
  the last \<open>ng\<close> interior rows of the left neighbour (for patch 0 the first interior row,
  replicated), on the right the first \<open>ng\<close> interior rows of the right neighbour (for the
  last patch the last interior row, replicated).
\<close>

definition interior :: "nat \<Rightarrow> 'a list \<Rightarrow> 'a list" where
  "interior ng a = take (length a - 2 * ng) (drop ng a)"

definition last_rows :: "nat \<Rightarrow> 'a list \<Rightarrow> 'a list" where
  "last_rows k xs = drop (length xs - k) xs"

definition is_buffer :: "string \<Rightarrow> bool" where
  "is_buffer name =
    (name = ''primitive1'' \<or> name = ''conserved0'' \<or> name = ''conserved1''
       \<or> name = ''conserved2'')"

definition the_array :: "patch \<Rightarrow> string \<Rightarrow> array3" where
  "the_array p name = (case getattr_array p name of Inl err \<Rightarrow> [] | Inr a \<Rightarrow> a)"

definition arrays_of :: "solver \<Rightarrow> string \<Rightarrow> array3 list" where
  "arrays_of s name = map (\<lambda>p. the_array p name) (patches s)"

definition exchanged_array :: "nat \<Rightarrow> 'a list list \<Rightarrow> nat \<Rightarrow> 'a list" where
  "exchanged_array ng as i =
    (let n = length as;
         inner = interior ng (as ! i);
         left = (if i = 0 then replicate ng (hd inner)
                 else last_rows ng (interior ng (as ! ((i + n - 1) mod n))));
         right = (if i = n - 1 then replicate ng (last inner)
                  else take ng (interior ng (as ! ((i + n + 1) mod n))))
     in left @ inner @ right)"

definition wide_patches :: "nat \<Rightarrow> 'a list list \<Rightarrow> bool" where
  "wide_patches ng as = (0 < ng \<and> as \<noteq> [] \<and> list_all (\<lambda>a. 3 * ng \<le> length a) as)"

section \<open>The properties as the specification words them, and example states\<close>

subsection \<open>The exchange, the stages and the global wavespeed in the words of the specification\<close>

text \<open>
  \<open>with_arrays s name as\<close> is the solver \<open>s\<close> with the buffer \<open>name\<close> of patch \<open>i\<close> replaced by
  \<open>as ! i\<close>. \<open>exchange_by_spec\<close> follows the specification: every patch ends up with the
  array \<open>exchanged_array\<close> describes, computed from the arrays before the exchange.
\<close>

definition with_arrays :: "solver \<Rightarrow> string \<Rightarrow> array3 list \<Rightarrow> solver" where
  "with_arrays s name as =
    s\<lparr>patches := map (\<lambda>i. store_array (patches s ! i) name (as ! i)) [0..<length (patches s)]\<rparr>"

definition exchange_by_spec :: "solver \<Rightarrow> string \<Rightarrow> solver" where
  "exchange_by_spec s name =
    with_arrays s name
      (map (exchanged_array (num_guard s) (arrays_of s name)) [0..<length (patches s)])"

text \<open>
  A stage in the words of the specification: recompute the primitives on every patch, run the
  boundary exchange, then call \<^verbatim>\<open>advance_rk\<close> on every patch with the weight of the stage.
  \<open>advance_by_schedule bs\<close> starts a new iteration on every patch and runs one stage for each
  weight of the schedule \<open>bs\<close>, in order.
\<close>

definition stage_by_spec :: "real \<Rightarrow> real \<Rightarrow> solver \<Rightarrow> py_error + solver" where
  "stage_by_spec rk_param dt s =
    and_then (set_bc (s\<lparr>patches := map recompute_primitive (patches s)\<rparr>) ''primitive1'')
      (\<lambda>s. Inr (s\<lparr>patches := map (Patch_advance_rk rk_param dt) (patches s)\<rparr>))"

definition advance_by_schedule :: "real list \<Rightarrow> solver \<Rightarrow> real \<Rightarrow> py_error + solver" where
  "advance_by_schedule bs s dt =
    fold_err (\<lambda>b s. stage_by_spec b dt s) bs
      (s\<lparr>patches := map Patch_new_iteration (patches s)\<rparr>)"

text \<open>
  The global maximum in the words of the specification, which is the line the source has
  commented out: \<^verbatim>\<open>max(patch.maximum_wavespeed for patch in self.patches)\<close>. The maximum
  of no patch at all is a \<^verbatim>\<open>ValueError\<close>.
\<close>

fun patch_maxima :: "patch list \<Rightarrow> py_error + real list" where
  "patch_maxima [] = Inr []"
| "patch_maxima (p # ps) =
     and_then (Patch_maximum_wavespeed p) (\<lambda>r.
     and_then (patch_maxima ps) (\<lambda>rs. Inr (fst r # rs)))"

definition maximum_wavespeed_by_spec :: "solver \<Rightarrow> py_error + real" where
  "maximum_wavespeed_by_spec s =
    and_then (patch_maxima (patches s))
      (\<lambda>rs. case rs of [] \<Rightarrow> Inl ValueError | x # xs \<Rightarrow> Inr (fold max xs x))"

subsection \<open>Example states\<close>

text \<open>
  The kernels are parameters of the model. \<open>toy_library\<close> is one choice of them, simple
  enough to follow by hand: the conversions copy the array they read, the update kernel
  integrates \<open>du/dt = u\<close> cell by cell with the Runge-Kutta weight it is given, and the
  wavespeed kernel applies \<open>max_wavespeed\<close> to the interior cells. The meshes and the
  setups hold what the solver reads from them.
\<close>

definition toy_library :: library where
  "toy_library =
    \<lparr> srhd_2d_primitive_to_conserved =
        (\<lambda>fcs primitive conserved extent factor. primitive),
      srhd_2d_conserved_to_primitive =
        (\<lambda>fcs conserved primitive extent factor. conserved),
      srhd_2d_advance_rk =
        (\<lambda>fcs c0 p1 c1 c2 extent a0 adot t rk_param dt.
           map2 (map2 (map2 (\<lambda>u0 u. u0 * rk_param + (u + dt * u) * (1 - rk_param)))) c0 c1),
      srhd_2d_max_wavespeeds =
        (\<lambda>fcs primitive ws adot. map (map (max_wavespeed NPRIM4)) (interior 2 primitive)) \<rparr>"

definition example_mesh :: "nat \<Rightarrow> mesh" where
  "example_mesh ni =
    \<lparr> mesh_shape = (ni, 1),
      mesh_faces = (\<lambda>i0 i1. map real [i0..<Suc i1]),
      mesh_polar_extent = 0,
      mesh_scale_factor = (\<lambda>t. 1),
      mesh_scale_factor_derivative = None,
      mesh_cell_coordinates = (\<lambda>t i j. (real i, 0)) \<rparr>"

definition outflow_setup :: problem_setup where
  "outflow_setup =
    \<lparr> boundary_condition = ''outflow'',
      primitive_at = (\<lambda>t coordinate primitive. [1, 0, 0, 6 / 25]) \<rparr>"


text \<open>
  A row of one cell. A guard row is zero, as the constructor leaves it; a state row holds a
  fluid at rest of density \<open>d\<close> and pressure \<open>6 d / 25\<close>, whose sound speed is \<open>1 / 2\<close>.
\<close>

definition guard_row :: "real list list" where
  "guard_row = [[0, 0, 0, 0]]"

definition state_row :: "real \<Rightarrow> real list list" where
  "state_row d = [[d, 0, 0, 6 / 25 * d]]"

text \<open>
  Three patches of one interior row each, as the constructor builds them on a mesh of three
  rows, after the primitives have been recomputed; and two patches of two interior rows
  each, on a mesh of four rows.
\<close>

definition thin_solution :: array3 where
  "thin_solution = [state_row 1, state_row 2, state_row 3]"

definition thin_array :: "real \<Rightarrow> array3" where
  "thin_array d = [guard_row, guard_row, state_row d, guard_row, guard_row]"

definition example_patch :: "nat \<Rightarrow> nat \<times> nat \<Rightarrow> array3 \<Rightarrow> patch" where
  "example_patch ni index_range a =
    recompute_primitive (Patch_init 0 a (example_mesh ni) index_range toy_library 0)"

definition thin_solver :: solver where
  "thin_solver =
    \<lparr> solver_mesh = example_mesh 3, solver_setup = outflow_setup, num_guard = 2, num_cons = 4,
      patches = [example_patch 3 (0, 1) (thin_array 1), example_patch 3 (1, 2) (thin_array 2),
                 example_patch 3 (2, 3) (thin_array 3)] \<rparr>"

definition wide_array :: "real \<Rightarrow> real \<Rightarrow> array3" where
  "wide_array d e = [guard_row, guard_row, state_row d, state_row e, guard_row, guard_row]"

definition wide_solver :: solver where
  "wide_solver =
    \<lparr> solver_mesh = example_mesh 4, solver_setup = outflow_setup, num_guard = 2, num_cons = 4,
      patches = [example_patch 4 (0, 2) (wide_array 1 2), example_patch 4 (2, 4) (wide_array 3 4)] \<rparr>"

text \<open>
  The arrays of the three thin patches after one boundary exchange and after two.
\<close>

definition thin_once :: "array3 list" where
  "thin_once =
    [[state_row 1, state_row 1, state_row 1, state_row 2, guard_row],
     [state_row 1, state_row 1, state_row 2, state_row 3, guard_row],
     [state_row 1, state_row 2, state_row 3, state_row 3, state_row 3]]"

definition thin_twice :: "array3 list" where
  "thin_twice =
    [[state_row 1, state_row 1, state_row 1, state_row 2, state_row 3],
     [state_row 1, state_row 1, state_row 2, state_row 3, state_row 3],
     [state_row 1, state_row 2, state_row 3, state_row 3, state_row 3]]"

text \<open>
  A second choice of kernels, whose results are small exact numbers: the conversions copy the
  array they read, the update kernel adds one to every entry of \<^verbatim>\<open>conserved1\<close> each time it
  is launched, and the wavespeed kernel reports the speed \<open>1 / 2\<close> in every zone.
  \<open>counting_solver\<close> is the solver the constructor builds with these kernels on a mesh of
  four rows and two patches.
\<close>

definition counting_library :: library where
  "counting_library =
    \<lparr> srhd_2d_primitive_to_conserved =
        (\<lambda>fcs primitive conserved extent factor. primitive),
      srhd_2d_conserved_to_primitive =
        (\<lambda>fcs conserved primitive extent factor. conserved),
      srhd_2d_advance_rk =
        (\<lambda>fcs c0 p1 c1 c2 extent a0 adot t rk_param dt. map (map (map (\<lambda>u. u + 1))) c1),
      srhd_2d_max_wavespeeds =
        (\<lambda>fcs primitive ws adot. map (map (\<lambda>speed. 1 / 2)) ws) \<rparr>"

definition wide_solution :: array3 where
  "wide_solution = [state_row 1, state_row 2, state_row 3, state_row 4]"

definition counting_solver :: solver where
  "counting_solver =
    \<lparr> solver_mesh = example_mesh 4, solver_setup = outflow_setup, num_guard = 2, num_cons = 4,
      patches = [Patch_init 0 (wide_array 1 2) (example_mesh 4) (0, 2) counting_library 0,
                 Patch_init 0 (wide_array 3 4) (example_mesh 4) (2, 4) counting_library 0] \<rparr>"

text \<open>
  What a run shows of the scheme: the first number of the first interior cell of patch 0,
  in the buffer \<^verbatim>\<open>conserved1\<close>.
\<close>

definition first_interior_number :: "py_error + solver \<Rightarrow> py_error + real" where
  "first_interior_number r =
    and_then r (\<lambda>s. Inr (conserved1 (patches s ! 0) ! num_guard s ! 0 ! 0))"

section \<open>The Newton loop of \<^verbatim>\<open>cons_to_prim\<close>\<close>

lemma newton_loop_step:
  "newton_loop m tau ss pre iteration =
    (case newton_pass m tau ss pre of (f, pre', w) \<Rightarrow>
       if \<bar>f\<bar> < error_tolerance then Some (Inr (pre', w, iteration))
       else if iteration = newton_iter_max then Some (Inl C2P_Failed)
       else newton_loop m tau ss pre' (iteration + 1))"
  by (subst newton_loop.simps) (simp only: newton_pass_def Let_def prod.case)

text \<open>The loop never runs forever: started with a counter of at most 50 it returns.\<close>

lemma newton_loop_returns_from:
  "iteration = newton_iter_max - int n \<Longrightarrow> \<exists>r. newton_loop m tau ss pre iteration = Some r"
proof (induction n arbitrary: pre iteration)
  case 0
  then show ?case
    by (subst newton_loop_step) (simp split: prod.splits)
next
  case (Suc n)
  obtain f pre' w where pass: "newton_pass m tau ss pre = (f, pre', w)"
    by (cases "newton_pass m tau ss pre")
  have "iteration + 1 = newton_iter_max - int n" using Suc.prems by simp
  from Suc.IH[OF this] obtain r where "newton_loop m tau ss pre' (iteration + 1) = Some r"
    by blast
  then show ?case
    by (subst newton_loop_step) (simp add: pass)
qed

lemma newton_loop_returns: "\<exists>r. newton_loop m tau ss pre 0 = Some r"
  using newton_loop_returns_from[of 0 50] by (simp add: newton_iter_max_def)

lemma newton_pass_lorentz:
  assumes "newton_pass m tau ss pre = (f, pre', w)"
  shows "0 < w" "w \<le> 10 ^ 5"
proof -
  define b2 where "b2 = min2 (ss / (tau + pre + m) / (tau + pre + m)) (1 - 1 / 10 ^ 10)"
  have w: "w = sqrt (1 / (1 - b2))"
    using assms by (simp add: newton_pass_def Let_def b2_def)
  have "b2 \<le> 1 - 1 / 10 ^ 10" by (simp add: b2_def min2_def)
  then have d: "1 / 10 ^ 10 \<le> 1 - b2" by simp
  moreover have "(0 :: real) < 1 / 10 ^ 10" by simp
  ultimately have pos: "0 < 1 - b2" by linarith
  then show "0 < w" unfolding w by simp
  have "1 / (1 - b2) \<le> 1 / (1 / 10 ^ 10)"
    using d by (intro divide_left_mono) simp_all
  then have "1 / (1 - b2) \<le> (10 ^ 5)\<^sup>2" by simp
  then have "sqrt (1 / (1 - b2)) \<le> 10 ^ 5"
    by (intro real_le_lsqrt) simp_all
  then show "w \<le> 10 ^ 5" unfolding w .
qed

lemma newton_loop_lorentz_from:
  assumes "iteration = newton_iter_max - int n"
    and "newton_loop m tau ss pre iteration = Some (Inr (pre1, w0, k))"
  shows "0 < w0 \<and> w0 \<le> 10 ^ 5"
  using assms
proof (induction n arbitrary: pre iteration)
  case 0
  obtain f pre' w where pass: "newton_pass m tau ss pre = (f, pre', w)"
    by (cases "newton_pass m tau ss pre")
  have "w0 = w"
    using "0.prems" by (subst (asm) newton_loop_step) (simp add: pass split: if_splits)
  then show ?case using newton_pass_lorentz[OF pass] by simp
next
  case (Suc n)
  obtain f pre' w where pass: "newton_pass m tau ss pre = (f, pre', w)"
    by (cases "newton_pass m tau ss pre")
  have next_it: "iteration + 1 = newton_iter_max - int n" using Suc.prems by simp
  show ?case
  proof (cases "\<bar>f\<bar> < error_tolerance")
    case True
    then have "w0 = w"
      using Suc.prems(2) by (subst (asm) newton_loop_step) (simp add: pass)
    then show ?thesis using newton_pass_lorentz[OF pass] by simp
  next
    case False
    have "iteration \<noteq> newton_iter_max" using Suc.prems(1) by simp
    then have "newton_loop m tau ss pre' (iteration + 1) = Some (Inr (pre1, w0, k))"
      using Suc.prems(2) False by (subst (asm) newton_loop_step) (simp add: pass)
    from Suc.IH[OF next_it this] show ?thesis .
  qed
qed

lemma newton_loop_lorentz:
  assumes "newton_loop m tau ss pre 0 = Some (Inr (pre1, w0, k))"
  shows "0 < w0" "w0 \<le> 10 ^ 5"
  using newton_loop_lorentz_from[of 0 50 m tau ss pre pre1 w0 k] assms
  by (simp_all add: newton_iter_max_def)

subsection \<open>A conserved state on which the loop does not converge\<close>

lemma sqrt_ten_pow_ten: "sqrt (10 ^ 10) = 10 ^ 5"
proof -
  have "sqrt ((10 ^ 5)\<^sup>2) = (10 ^ 5 :: real)" by (simp only: real_sqrt_abs) simp
  then show ?thesis by simp
qed

lemma newton_pass_clamped:
  assumes "1 - 1 / 10 ^ 10 \<le> ss / (tau + pre + m) / (tau + pre + m)"
  shows "newton_pass m tau ss pre =
    (let e = (tau + m * (1 - 10 ^ 5) + pre * (1 - 10 ^ 10)) / (m * 10 ^ 5);
         rho = m / 10 ^ 5;
         h = 1 + e + pre / rho;
         a2 = GAMMA_LAW_INDEX * pre / (rho * h);
         f = rho * e * (GAMMA_LAW_INDEX - 1) - pre;
         g = (1 - 1 / 10 ^ 10) * a2 - 1
     in (f, pre - f / g, 10 ^ 5))"
proof -
  have b2: "min2 (ss / (tau + pre + m) / (tau + pre + m)) (1 - 1 / 10 ^ 10) = 1 - 1 / 10 ^ 10"
    using assms by (simp add: min2_def)
  have w2: "1 / (1 - (1 - 1 / 10 ^ 10)) = (10 ^ 10 :: real)" by simp
  show ?thesis
    unfolding newton_pass_def Let_def b2 w2 sqrt_ten_pow_ten ..
qed

lemma abort_pass:
  assumes "1 \<le> pre" "pre \<le> 2"
  shows "\<exists>f pre'. newton_pass 1 (- 1) 100 pre = (f, pre', 10 ^ 5)
           \<and> \<not> \<bar>f\<bar> < error_tolerance \<and> pre \<le> pre' \<and> pre' \<le> pre + 1 / 10 ^ 9"
proof -
  define f where "f = - (2 / 3) * (10 ^ 5 + (10 ^ 10 - 1) * pre) / 10 ^ 10 - pre"
  define g :: real where "g = (5 * 10 ^ 10 - 8) / 3"
  have "pre * pre \<le> 2 * 2" using assms by (intro mult_mono) simp_all
  then have "1 \<le> 100 / (pre * pre)" using assms by (simp add: le_divide_eq)
  then have clamp: "1 - 1 / 10 ^ 10 \<le> 100 / (- 1 + pre + 1) / (- 1 + pre + 1)"
    by simp
  have pre0: "pre \<noteq> 0" using assms by simp
  have rhoh: "1 / 10 ^ 5 * (1 + (- 1 + 1 * (1 - 10 ^ 5) + pre * (1 - 10 ^ 10)) / (1 * 10 ^ 5)
                + pre / (1 / 10 ^ 5)) = pre / 10 ^ 10"
    by (simp add: field_simps)
  have pass: "newton_pass 1 (- 1) 100 pre = (f, pre - f / g, 10 ^ 5)"
    unfolding newton_pass_clamped[OF clamp] Let_def rhoh
    using pre0 by (simp add: GAMMA_LAW_INDEX_def f_def g_def field_simps)
  have fneg: "f \<le> - 1" using assms by (simp add: f_def field_simps)
  have flow: "- 4 \<le> f" using assms by (simp add: f_def field_simps)
  have gpos: "10 ^ 10 \<le> g" by (simp add: g_def)
  have gpos': "0 < g" by (simp add: g_def)
  have q1: "0 \<le> - f / g" using fneg gpos' by (intro divide_nonneg_nonneg) linarith+
  have "- f / g \<le> 4 / 10 ^ 10"
    using flow fneg gpos by (intro frac_le) simp_all
  then have q2: "- f / g \<le> 1 / 10 ^ 9" by simp
  have "\<not> \<bar>f\<bar> < error_tolerance" using fneg by (simp add: error_tolerance_def)
  then show ?thesis using pass q1 q2 by auto
qed

lemma abort_loop:
  assumes "iteration = newton_iter_max - int n" "n \<le> 50"
    and "1 \<le> pre" "pre \<le> 1 + real_of_int iteration / 10 ^ 9"
  shows "newton_loop 1 (- 1) 100 pre iteration = Some (Inl C2P_Failed)"
  using assms
proof (induction n arbitrary: pre iteration)
  case 0
  then have "pre \<le> 2" by (simp add: newton_iter_max_def)
  from abort_pass[OF "0.prems"(3) this] obtain f pre' where
    pass: "newton_pass 1 (- 1) 100 pre = (f, pre', 10 ^ 5)" and nf: "\<not> \<bar>f\<bar> < error_tolerance"
    by blast
  show ?case using "0.prems"(1) nf
    by (subst newton_loop_step) (simp add: pass)
next
  case (Suc n)
  have it: "0 \<le> iteration" "iteration < 50" using Suc.prems(1,2) by (simp_all add: newton_iter_max_def)
  then have "real_of_int iteration / 10 ^ 9 \<le> 1" by simp
  then have "pre \<le> 2" using Suc.prems(4) by linarith
  from abort_pass[OF Suc.prems(3) this] obtain f pre' where
    pass: "newton_pass 1 (- 1) 100 pre = (f, pre', 10 ^ 5)" and nf: "\<not> \<bar>f\<bar> < error_tolerance"
    and lo: "pre \<le> pre'" and hi: "pre' \<le> pre + 1 / 10 ^ 9"
    by blast
  have a: "iteration + 1 = newton_iter_max - int n" using Suc.prems(1) by simp
  have b: "n \<le> 50" using Suc.prems(2) by simp
  have c: "1 \<le> pre'" using lo Suc.prems(3) by linarith
  have d: "pre' \<le> 1 + real_of_int (iteration + 1) / 10 ^ 9"
    using hi Suc.prems(4) by (simp add: add_divide_distrib)
  have "iteration \<noteq> newton_iter_max" using it by (simp add: newton_iter_max_def)
  then show ?case using nf Suc.IH[OF a b c d]
    by (subst newton_loop_step) (simp add: pass)
qed

lemma newton_loop_abort_example:
  "newton_loop 1 (- 1) 100 1 0 = Some (Inl C2P_Failed)"
  using abort_loop[of 0 50 1] by (simp add: newton_iter_max_def)

lemma cons_to_prim_abort_example:
  "cons_to_prim NPRIM3 [1, 10, - 1] [0, 0, 1] = Some (Inl C2P_Failed)"
  by (simp add: cons_to_prim_def DEN_def SXX_def newton_loop_abort_example)

subsection \<open>The checked variant\<close>

lemma newton_loop_rest_example: "newton_loop 1 3 0 2 0 = Some (Inr (2, 1, 0))"
  by (subst newton_loop.simps)
     (simp add: Let_def min2_def GAMMA_LAW_INDEX_def error_tolerance_def)

lemma cons_to_prim_rest_example:
  "cons_to_prim NPRIM3 [1, 0, 3] [0, 0, 2] = Some (Inr [1, 0, 2])"
  by (simp add: cons_to_prim_def DEN_def SXX_def RHO_def UXX_def newton_loop_rest_example)

text \<open>
  Claim C5 fails as stated: \<^verbatim>\<open>cons_to_prim_check\<close> calls \<^verbatim>\<open>cons_to_prim\<close> first, and
  the status tests come after it. On the conserved state below (negative energy, for which
  the claim promises status 2) the solve does not converge, so the checked variant ends the
  run exactly as the strict one does.
\<close>

theorem cons_to_prim_check_aborts_on_negative_energy:
  "[1, 10, - 1] ! NRG NPRIM3 < (0 :: real)
   \<and> cons_to_prim_check NPRIM3 [1, 10, - 1] [0, 0, 1] = Some (Inl C2P_Failed)"
  by (simp add: cons_to_prim_check_def cons_to_prim_abort_example)

lemma cons_to_prim_returns: "\<exists>r. cons_to_prim cfg u p = Some r"
proof -
  obtain r where "newton_loop (u ! DEN) (u ! NRG cfg) (momentum_squared cfg u) (p ! PRE cfg) 0 = Some r"
    using newton_loop_returns by blast
  then show ?thesis
    by (cases r) (auto simp: cons_to_prim_def Let_def)
qed

text \<open>
  Claim C5, amended. \<^verbatim>\<open>cons_to_prim_check\<close> always returns; it runs the same solve as
  \<^verbatim>\<open>cons_to_prim\<close> and ends the run whenever that solve does (non-convergence). When
  the solve returns primitives, the checked variant returns the same primitives with a
  status: 1 for a negative conserved mass density, else 2 for a negative conserved energy,
  else 3 for a negative recovered pressure, else 0.
\<close>

theorem cons_to_prim_check_same_solve_then_status:
  "(\<exists>r. cons_to_prim_check cfg u p = Some r)
   \<and> (cons_to_prim cfg u p = Some (Inl C2P_Failed)
        \<longrightarrow> cons_to_prim_check cfg u p = Some (Inl C2P_Failed))
   \<and> (\<forall>p'. cons_to_prim cfg u p = Some (Inr p') \<longrightarrow>
        (\<exists>status. cons_to_prim_check cfg u p = Some (Inr (status, p'))
           \<and> (status = 1 \<longleftrightarrow> u ! DEN < 0)
           \<and> (status = 2 \<longleftrightarrow> 0 \<le> u ! DEN \<and> u ! NRG cfg < 0)
           \<and> (status = 3 \<longleftrightarrow> 0 \<le> u ! DEN \<and> 0 \<le> u ! NRG cfg \<and> p' ! PRE cfg < 0)
           \<and> (status = 0 \<longleftrightarrow> 0 \<le> u ! DEN \<and> 0 \<le> u ! NRG cfg \<and> 0 \<le> p' ! PRE cfg)))"
proof (intro conjI allI impI)
  obtain r where r: "cons_to_prim cfg u p = Some r" using cons_to_prim_returns by blast
  show "\<exists>r. cons_to_prim_check cfg u p = Some r"
    by (cases r) (simp_all add: cons_to_prim_check_def r)
next
  assume "cons_to_prim cfg u p = Some (Inl C2P_Failed)"
  then show "cons_to_prim_check cfg u p = Some (Inl C2P_Failed)"
    by (simp add: cons_to_prim_check_def)
next
  fix p'
  assume "cons_to_prim cfg u p = Some (Inr p')"
  then show "\<exists>status. cons_to_prim_check cfg u p = Some (Inr (status, p'))
           \<and> (status = 1 \<longleftrightarrow> u ! DEN < 0)
           \<and> (status = 2 \<longleftrightarrow> 0 \<le> u ! DEN \<and> u ! NRG cfg < 0)
           \<and> (status = 3 \<longleftrightarrow> 0 \<le> u ! DEN \<and> 0 \<le> u ! NRG cfg \<and> p' ! PRE cfg < 0)
           \<and> (status = 0 \<longleftrightarrow> 0 \<le> u ! DEN \<and> 0 \<le> u ! NRG cfg \<and> 0 \<le> p' ! PRE cfg)"
    by (auto simp: cons_to_prim_check_def)
qed

theorem cons_to_prim_check_same_solve_then_status_witness:
  "cons_to_prim NPRIM3 [1, 10, - 1] [0, 0, 1] = Some (Inl C2P_Failed)
   \<and> cons_to_prim_check NPRIM3 [1, 10, - 1] [0, 0, 1] = Some (Inl C2P_Failed)
   \<and> cons_to_prim NPRIM3 [1, 0, 3] [0, 0, 2] = Some (Inr [1, 0, 2])
   \<and> cons_to_prim_check NPRIM3 [1, 0, 3] [0, 0, 2] = Some (Inr (0, [1, 0, 2]))"
  using cons_to_prim_check_same_solve_then_status[of NPRIM3 "[1, 10, - 1]" "[0, 0, 1]"]
    cons_to_prim_check_same_solve_then_status[of NPRIM3 "[1, 0, 3]" "[0, 0, 2]"]
    cons_to_prim_abort_example cons_to_prim_rest_example
  by (auto simp: DEN_def)

section \<open>The iteration bound of the Newton loop\<close>

lemma slow_clamp:
  fixes pre :: real
  assumes "\<bar>pre\<bar> \<le> 3 / 10 ^ 4"
  shows "1 - 1 / 10 ^ 10 \<le> 10 ^ 22 / (99999 * 10 ^ 6 + pre + 10 ^ 6) / (99999 * 10 ^ 6 + pre + 10 ^ 6)"
proof -
  define x where "x = 99999 * 10 ^ 6 + pre + 10 ^ 6"
  have x: "0 < x" "x \<le> 10 ^ 11 + 1" using assms by (simp_all add: x_def abs_le_iff)
  have "x * x \<le> (10 ^ 11 + 1) * (10 ^ 11 + 1)"
    using x by (intro mult_mono) simp_all
  then have "(1 - 1 / 10 ^ 10) * (x * x) \<le> (1 - 1 / 10 ^ 10) * ((10 ^ 11 + 1) * (10 ^ 11 + 1))"
    by (intro mult_left_mono) simp_all
  also have "\<dots> \<le> 10 ^ 22" by simp
  finally have "(1 - 1 / 10 ^ 10) * (x * x) \<le> 10 ^ 22" .
  moreover have "0 < x * x" using x by simp
  ultimately have "1 - 1 / 10 ^ 10 \<le> 10 ^ 22 / (x * x)"
    by (simp add: le_divide_eq)
  then show ?thesis by (simp add: x_def)
qed

lemma slow_pass_value:
  fixes pre :: real
  assumes "\<bar>pre\<bar> \<le> 3 / 10 ^ 4"
  defines "d \<equiv> 5 / 3 * (10 ^ 10 - 1) * pre / (10 ^ 11 + pre)"
  shows "newton_pass (10 ^ 6) (99999 * 10 ^ 6) (10 ^ 22) pre
           = (- kappa * pre, pre + kappa * pre / (d - 1), 10 ^ 5)"
proof -
  have den: "0 < 10 ^ 11 + pre" using assms(1) by (simp add: abs_le_iff)
  have rhoh: "10 ^ 6 / 10 ^ 5 * (1 + (99999 * 10 ^ 6 + 10 ^ 6 * (1 - 10 ^ 5) + pre * (1 - 10 ^ 10))
                 / (10 ^ 6 * 10 ^ 5) + pre / (10 ^ 6 / 10 ^ 5)) = (10 ^ 11 + pre) / 10 ^ 10"
    by (simp add: field_simps)
  have f: "10 ^ 6 / 10 ^ 5 * ((99999 * 10 ^ 6 + 10 ^ 6 * (1 - 10 ^ 5) + pre * (1 - 10 ^ 10))
                 / (10 ^ 6 * 10 ^ 5)) * (GAMMA_LAW_INDEX - 1) - pre = - kappa * pre"
    by (simp add: GAMMA_LAW_INDEX_def kappa_def field_simps)
  have g: "(1 - 1 / 10 ^ 10) * (GAMMA_LAW_INDEX * pre / ((10 ^ 11 + pre) / 10 ^ 10)) - 1 = d - 1"
    using den by (simp add: GAMMA_LAW_INDEX_def d_def field_simps)
  have "pre - - kappa * pre / (d - 1) = pre + kappa * pre / (d - 1)" by simp
  then show ?thesis
    unfolding newton_pass_clamped[OF slow_clamp[OF assms(1)]] Let_def rhoh f g by simp
qed

lemma slow_ratio:
  fixes pre :: real
  assumes "\<bar>pre\<bar> \<le> 3 / 10 ^ 4"
  defines "d \<equiv> 5 / 3 * (10 ^ 10 - 1) * pre / (10 ^ 11 + pre)"
  shows "666 / 1000 * \<bar>pre\<bar> \<le> \<bar>pre + kappa * pre / (d - 1)\<bar>"
    and "\<bar>pre + kappa * pre / (d - 1)\<bar> \<le> 667 / 1000 * \<bar>pre\<bar>"
proof -
  have den: "10 ^ 11 - 1 \<le> 10 ^ 11 + pre" using assms(1) by (simp add: abs_le_iff)
  have den0: "0 < 10 ^ 11 + pre" using assms(1) by (simp add: abs_le_iff)
  have "\<bar>d\<bar> = 5 / 3 * (10 ^ 10 - 1) * \<bar>pre\<bar> / (10 ^ 11 + pre)"
    using den0 by (simp add: d_def abs_mult)
  also have "\<dots> \<le> 5 / 3 * (10 ^ 10 - 1) * (3 / 10 ^ 4) / (10 ^ 11 - 1)"
    using assms(1) den by (intro frac_le mult_left_mono) simp_all
  also have "\<dots> \<le> 1 / 10 ^ 4" by simp
  finally have d: "\<bar>d\<bar> \<le> 1 / 10 ^ 4" .
  then have d1: "0 < 1 - d" by (simp add: abs_le_iff)
  define q where "q = (kappa - 1 + d) / (1 - d)"
  have "pre + kappa * pre / (d - 1) = - (pre * q)"
    using d1 by (simp add: q_def field_simps)
  then have eq: "\<bar>pre + kappa * pre / (d - 1)\<bar> = \<bar>pre\<bar> * \<bar>q\<bar>" by (simp add: abs_mult)
  have k: "kappa = 1 + 2 / 3 * (1 - 1 / 10 ^ 10)" by (simp add: kappa_def)
  have "666 / 1000 * (1 - d) \<le> kappa - 1 + d" using d unfolding k by (simp add: abs_le_iff)
  then have qlo: "666 / 1000 \<le> q" using d1 by (simp add: q_def le_divide_eq)
  have "kappa - 1 + d \<le> 667 / 1000 * (1 - d)" using d unfolding k by (simp add: abs_le_iff)
  then have qhi: "q \<le> 667 / 1000" using d1 by (simp add: q_def divide_le_eq)
  have qabs: "\<bar>q\<bar> = q" using qlo by simp
  have "\<bar>pre\<bar> * (666 / 1000) \<le> \<bar>pre\<bar> * q"
    using qlo by (intro mult_left_mono) simp_all
  then show "666 / 1000 * \<bar>pre\<bar> \<le> \<bar>pre + kappa * pre / (d - 1)\<bar>"
    unfolding eq qabs by (simp only: mult.commute)
  have "\<bar>pre\<bar> * q \<le> \<bar>pre\<bar> * (667 / 1000)"
    using qhi by (intro mult_left_mono) simp_all
  then show "\<bar>pre + kappa * pre / (d - 1)\<bar> \<le> 667 / 1000 * \<bar>pre\<bar>"
    unfolding eq qabs by (simp only: mult.commute)
qed

lemma slow_converged_at_50: "kappa * (3 / 10 ^ 4 * (667 / 1000) ^ 50) < error_tolerance"
  by (simp add: kappa_def error_tolerance_def power_divide)

lemma slow_not_converged_at_49: "error_tolerance \<le> kappa * (3 / 10 ^ 4 * (666 / 1000) ^ 49)"
  by (simp add: kappa_def error_tolerance_def power_divide)

lemma kappa_pos: "0 < kappa"
  by (simp add: kappa_def)

lemma slow_loop:
  fixes pre :: real
  assumes "n = 50 - k" and "k \<le> 50"
    and "3 / 10 ^ 4 * (666 / 1000) ^ k \<le> \<bar>pre\<bar>"
    and "\<bar>pre\<bar> \<le> 3 / 10 ^ 4 * (667 / 1000) ^ k"
  shows "\<exists>pre'. newton_loop (10 ^ 6) (99999 * 10 ^ 6) (10 ^ 22) pre (int k)
                  = Some (Inr (pre', 10 ^ 5, 50))"
  using assms
proof (induction n arbitrary: k pre)
  case 0
  then have k: "k = 50" by simp
  have "(667 / 1000 :: real) ^ k \<le> 1" by (intro power_le_one) simp_all
  then have small: "\<bar>pre\<bar> \<le> 3 / 10 ^ 4" using "0.prems"(4) by simp
  have "\<bar>- kappa * pre\<bar> = kappa * \<bar>pre\<bar>" using kappa_pos by (simp add: abs_mult)
  also have "\<dots> \<le> kappa * (3 / 10 ^ 4 * (667 / 1000) ^ 50)"
    using "0.prems"(4) kappa_pos unfolding k by (intro mult_left_mono) simp_all
  finally have "\<bar>- kappa * pre\<bar> < error_tolerance"
    using slow_converged_at_50 by linarith
  then show ?case unfolding k
    by (subst newton_loop_step) (simp only: slow_pass_value[OF small] prod.case, simp)
next
  case (Suc n)
  then have k: "k < 50" "n = 50 - Suc k" by simp_all
  have "(667 / 1000 :: real) ^ k \<le> 1" by (intro power_le_one) simp_all
  then have small: "\<bar>pre\<bar> \<le> 3 / 10 ^ 4" using Suc.prems(4) by simp
  define pre' where
    "pre' = pre + kappa * pre / (5 / 3 * (10 ^ 10 - 1) * pre / (10 ^ 11 + pre) - 1)"
  have pass: "newton_pass (10 ^ 6) (99999 * 10 ^ 6) (10 ^ 22) pre = (- kappa * pre, pre', 10 ^ 5)"
    unfolding pre'_def by (rule slow_pass_value[OF small])
  have "(666 / 1000 :: real) ^ 49 \<le> (666 / 1000) ^ k"
    using k(1) by (intro power_decreasing) simp_all
  then have "kappa * (3 / 10 ^ 4 * (666 / 1000) ^ 49) \<le> kappa * (3 / 10 ^ 4 * (666 / 1000) ^ k)"
    using kappa_pos by (intro mult_left_mono) simp_all
  also have "\<dots> \<le> kappa * \<bar>pre\<bar>"
    using Suc.prems(3) kappa_pos by (intro mult_left_mono) simp_all
  also have "\<dots> = \<bar>- kappa * pre\<bar>" using kappa_pos by (simp add: abs_mult)
  finally have nf: "\<not> \<bar>- kappa * pre\<bar> < error_tolerance"
    using slow_not_converged_at_49 by linarith
  have lo: "3 / 10 ^ 4 * (666 / 1000) ^ Suc k \<le> \<bar>pre'\<bar>"
  proof -
    have "(3 :: real) / 10 ^ 4 * (666 / 1000) ^ Suc k = 666 / 1000 * (3 / 10 ^ 4 * (666 / 1000) ^ k)"
      by simp
    also have "\<dots> \<le> 666 / 1000 * \<bar>pre\<bar>"
      using Suc.prems(3) by (intro mult_left_mono) simp_all
    also have "\<dots> \<le> \<bar>pre'\<bar>" unfolding pre'_def by (rule slow_ratio(1)[OF small])
    finally show ?thesis .
  qed
  have hi: "\<bar>pre'\<bar> \<le> 3 / 10 ^ 4 * (667 / 1000) ^ Suc k"
  proof -
    have "\<bar>pre'\<bar> \<le> 667 / 1000 * \<bar>pre\<bar>" unfolding pre'_def by (rule slow_ratio(2)[OF small])
    also have "\<dots> \<le> 667 / 1000 * (3 / 10 ^ 4 * (667 / 1000) ^ k)"
      using Suc.prems(4) by (intro mult_left_mono) simp_all
    also have "\<dots> = 3 / 10 ^ 4 * (667 / 1000) ^ Suc k" by simp
    finally show ?thesis .
  qed
  have "Suc k \<le> 50" using k(1) by simp
  from Suc.IH[OF k(2) this lo hi] obtain r where
    r: "newton_loop (10 ^ 6) (99999 * 10 ^ 6) (10 ^ 22) pre' (int (Suc k)) = Some (Inr (r, 10 ^ 5, 50))"
    by blast
  have "int k \<noteq> newton_iter_max" using k(1) by (simp add: newton_iter_max_def)
  moreover have "int k + 1 = int (Suc k)" by simp
  ultimately show ?case using nf r
    by (subst newton_loop_step) (simp only: pass prod.case, simp)
qed

lemma newton_loop_slow_example:
  "\<exists>pre'. newton_loop (10 ^ 6) (99999 * 10 ^ 6) (10 ^ 22) (3 / 10 ^ 4) 0
            = Some (Inr (pre', 10 ^ 5, 50))"
  using slow_loop[of 50 0 "3 / 10 ^ 4"] by simp

text \<open>
  Claim C2, at a failing input. The loop always returns (lemmas \<open>newton_loop_returns\<close>,
  \<open>cons_to_prim_returns\<close>), applies the update on every pass and returns at the first pass
  whose residual is below \<open>10\<^sup>-\<^sup>1\<^sup>2\<close>. But the counter starts at 0 and is compared with
  \<^verbatim>\<open>newton_iter_max = 50\<close> only after the convergence test, so the loop makes up to 51
  passes. On the conserved state \<open>[10\<^sup>6, 10\<^sup>1\<^sup>1, 99999 \<cdot> 10\<^sup>6]\<close> with starting pressure
  \<open>3 \<cdot> 10\<^sup>-\<^sup>4\<close> the residual shrinks by a factor between 0.666 and 0.667 per pass: the
  first 50 passes do not meet the criterion, the loop runs a 51st pass with
  \<^verbatim>\<open>iteration = 50\<close>, that pass converges, and \<^verbatim>\<open>cons_to_prim\<close> returns primitives
  instead of ending the run.
\<close>

theorem cons_to_prim_returns_on_pass_51:
  "(case newton_loop (10 ^ 6) (99999 * 10 ^ 6) (10 ^ 22) (3 / 10 ^ 4) 0 of
      Some (Inr (pre, w0, iteration)) \<Rightarrow> iteration = newton_iter_max
    | Some (Inl err) \<Rightarrow> False
    | None \<Rightarrow> False)
   \<and> (case cons_to_prim NPRIM3 [10 ^ 6, 10 ^ 11, 99999 * 10 ^ 6] [0, 0, 3 / 10 ^ 4] of
        Some (Inr q) \<Rightarrow> q ! RHO = 10
      | Some (Inl err) \<Rightarrow> False
      | None \<Rightarrow> False)"
proof -
  obtain pre' where
    loop: "newton_loop (10 ^ 6) (99999 * 10 ^ 6) (10 ^ 22) (3 / 10 ^ 4) 0
             = Some (Inr (pre', 10 ^ 5, 50))"
    using newton_loop_slow_example by blast
  have ss: "momentum_squared NPRIM3 [10 ^ 6, 10 ^ 11, 99999 * 10 ^ 6] = 10 ^ 22"
    by (simp add: SXX_def)
  have "cons_to_prim NPRIM3 [10 ^ 6, 10 ^ 11, 99999 * 10 ^ 6] [0, 0, 3 / 10 ^ 4]
          = Some (Inr (store_velocity NPRIM3 [10 ^ 6, 10 ^ 11, 99999 * 10 ^ 6] (10 ^ 5)
                        (99999 * 10 ^ 6 + 10 ^ 6 + pre') ([0, 0, 3 / 10 ^ 4][RHO := 10 ^ 6 / 10 ^ 5,
                           PRE NPRIM3 := pre'])))"
    unfolding cons_to_prim_def Let_def ss
    using loop by (simp add: DEN_def RHO_def UXX_def)
  then show ?thesis
    using loop by (simp add: newton_iter_max_def RHO_def UXX_def)
qed

section \<open>The boundary exchange\<close>

lemma fold_err_append:
  "fold_err f (xs @ ys) s = and_then (fold_err f xs s) (fold_err f ys)"
  by (induction xs arbitrary: s) (auto simp: and_then_def split: sum.splits)

lemma and_then_Inr [simp]: "and_then (Inr x) f = f x"
  by (simp add: and_then_def)

lemma and_then_Inl [simp]: "and_then (Inl e) f = Inl e"
  by (simp add: and_then_def)

lemma slice_left_guard_assign:
  assumes "length gl = ng" "length v = ng"
  shows "py_slice_assign (gl @ rest) None (Some (int ng)) v = Inr (v @ rest)"
  using assms by (simp add: py_slice_assign_def slice_bound_def Let_def)

lemma slice_right_guard_assign:
  assumes "length gr = ng" "length v = ng" "0 < ng"
  shows "py_slice_assign (front @ gr) (Some (- int ng)) None v = Inr (front @ v)"
  using assms by (simp add: py_slice_assign_def slice_bound_def Let_def)

lemma slice_interior_tail:
  assumes "length rows = ng" "length gr = ng" "0 < ng"
  shows "py_slice (front @ rows @ gr) (Some (- 2 * int ng)) (Some (- int ng)) = rows"
  using assms by (simp add: py_slice_def slice_bound_def Let_def)

lemma slice_interior_head:
  assumes "length gl = ng" "length rows = ng"
  shows "py_slice (gl @ rows @ rest) (Some (int ng)) (Some (2 * int ng)) = rows"
  using assms by (simp add: py_slice_def slice_bound_def Let_def)

lemma py_range_from_zero: "py_range 0 (int n) = map int [0..<n]"
  by (simp add: py_range_def)

lemma py_index_at:
  assumes "k < length xs"
  shows "py_index xs (int k) = Inr (xs ! k)"
  using assms by (simp add: py_index_def py_position_def)

lemma py_index_from_end:
  assumes "0 < k" "k \<le> length xs"
  shows "py_index xs (- int k) = Inr (xs ! (length xs - k))"
proof -
  have "py_position (length xs) (- int k) = Inr (length xs - k)"
    using assms by (simp add: py_position_def nat_diff_distrib')
  then show ?thesis by (simp add: py_index_def)
qed

lemma py_index_assign_at:
  assumes "k < length xs"
  shows "py_index_assign xs (int k) v = Inr (xs[k := v])"
  using assms by (simp add: py_index_assign_def py_position_def)

lemma outflow_left_prefix:
  assumes "k \<le> length gl"
  shows "fold_err (\<lambda>i pc. and_then (py_index pc (int (length gl))) (py_index_assign pc i))
           (map int [0..<k]) (gl @ x # rest)
         = Inr (replicate k x @ drop k gl @ x # rest)"
  using assms
proof (induction k)
  case 0
  then show ?case by simp
next
  case (Suc k)
  let ?ys = "replicate k x @ drop k gl @ x # rest"
  have k: "k < length gl" using Suc.prems by simp
  have len: "length gl < length ?ys" using k by simp
  have at: "?ys ! length gl = x"
    using k by (simp add: nth_append)
  have upd: "?ys[k := x] = replicate (Suc k) x @ drop (Suc k) gl @ x # rest"
  proof -
    have "drop k gl = gl ! k # drop (Suc k) gl" using k by (simp add: Cons_nth_drop_Suc)
    then have "?ys[k := x] = replicate k x @ (x # drop (Suc k) gl @ x # rest)"
      by (simp add: list_update_append)
    then show ?thesis by (simp add: replicate_append_same)
  qed
  have klen: "k < length ?ys" using k by simp
  have step: "and_then (py_index ?ys (int (length gl))) (py_index_assign ?ys (int k))
                = Inr (replicate (Suc k) x @ drop (Suc k) gl @ x # rest)"
    unfolding py_index_at[OF len] at and_then_Inr py_index_assign_at[OF klen] upd ..
  have "map int [0..<Suc k] = map int [0..<k] @ [int k]" by simp
  then show ?case
    using Suc.IH k step by (simp add: fold_err_append del: upt_Suc)
qed

lemma outflow_left_closed:
  assumes "length gl = ng"
  shows "outflow_left ng (gl @ x # rest) = Inr (replicate ng x @ x # rest)"
  using outflow_left_prefix[of ng gl x rest] assms
  by (simp add: outflow_left_def py_range_from_zero)

lemma outflow_right_prefix:
  assumes "k \<le> length gr"
  shows "fold_err (\<lambda>i pc. and_then (py_index pc (- int (length gr) - 1)) (py_index_assign pc i))
           (map (\<lambda>j. int (Suc (length front) + j)) [0..<k]) (front @ x # gr)
         = Inr (front @ x # replicate k x @ drop k gr)"
  using assms
proof (induction k)
  case 0
  then show ?case by simp
next
  case (Suc k)
  let ?ys = "front @ x # replicate k x @ drop k gr"
  have k: "k < length gr" using Suc.prems by simp
  have len: "length ?ys = Suc (length front + length gr)" using k by simp
  have "py_index ?ys (- int (Suc (length gr))) = Inr (?ys ! (length ?ys - Suc (length gr)))"
    by (rule py_index_from_end) (simp_all add: len)
  moreover have "?ys ! (length ?ys - Suc (length gr)) = x"
    unfolding len by (simp add: nth_append)
  moreover have "- int (length gr) - 1 = - int (Suc (length gr))" by simp
  ultimately have rd: "py_index ?ys (- int (length gr) - 1) = Inr x"
    by (simp only:)
  have pos: "Suc (length front) + k < length ?ys" using k by (simp add: len)
  have upd: "?ys[Suc (length front) + k := x] = front @ x # replicate (Suc k) x @ drop (Suc k) gr"
  proof -
    have "drop k gr = gr ! k # drop (Suc k) gr" using k by (simp add: Cons_nth_drop_Suc)
    then have "?ys[Suc (length front) + k := x]
                 = front @ x # replicate k x @ (x # drop (Suc k) gr)"
      by (simp add: list_update_append)
    then show ?thesis by (simp add: replicate_append_same)
  qed
  have step: "and_then (py_index ?ys (- int (length gr) - 1))
                (py_index_assign ?ys (int (Suc (length front) + k)))
                = Inr (front @ x # replicate (Suc k) x @ drop (Suc k) gr)"
    unfolding rd and_then_Inr py_index_assign_at[OF pos] upd ..
  have "map (\<lambda>j. int (Suc (length front) + j)) [0..<Suc k]
          = map (\<lambda>j. int (Suc (length front) + j)) [0..<k] @ [int (Suc (length front) + k)]"
    by simp
  then show ?case
    using Suc.IH k step by (simp add: fold_err_append del: upt_Suc)
qed

lemma py_range_last_rows:
  assumes "length gr = ng"
  shows "py_range (int (length (front @ x # gr)) - int ng) (int (length (front @ x # gr)))
           = map (\<lambda>j. int (Suc (length front) + j)) [0..<ng]"
  using assms by (simp add: py_range_def)

lemma outflow_right_closed:
  assumes "length gr = ng"
  shows "outflow_right ng (front @ x # gr) = Inr (front @ x # replicate ng x)"
  unfolding outflow_right_def py_range_last_rows[OF assms]
  using outflow_right_prefix[of ng gr front x] assms by simp

lemma array_split:
  assumes "0 < ng" "3 * ng \<le> length a"
  shows "a = take ng a @ interior ng a @ last_rows ng a"
    and "length (take ng a) = ng" and "length (last_rows ng a) = ng"
    and "ng \<le> length (interior ng a)" and "length (interior ng a) = length a - 2 * ng"
proof -
  have "drop ng a = take (length a - 2 * ng) (drop ng a) @ drop (length a - 2 * ng) (drop ng a)"
    by (rule append_take_drop_id[symmetric])
  moreover have "drop (length a - 2 * ng) (drop ng a) = drop (length a - ng) a"
    using assms by (simp add: algebra_simps)
  ultimately have "drop ng a = interior ng a @ last_rows ng a"
    by (simp add: interior_def last_rows_def)
  then show "a = take ng a @ interior ng a @ last_rows ng a"
    by (metis append_take_drop_id)
  show "length (take ng a) = ng" using assms by simp
  show "length (last_rows ng a) = ng" using assms by (simp add: last_rows_def)
  show "ng \<le> length (interior ng a)" using assms by (simp add: interior_def)
  show "length (interior ng a) = length a - 2 * ng" using assms by (simp add: interior_def)
qed

lemma interior_sandwich:
  assumes "length l = ng" "length r = ng"
  shows "interior ng (l @ inner @ r) = inner"
  using assms by (simp add: interior_def)

lemma read_interior_tail:
  assumes "0 < ng" "3 * ng \<le> length al"
  shows "py_slice al (Some (- 2 * int ng)) (Some (- int ng)) = last_rows ng (interior ng al)"
proof -
  note sp = array_split[OF assms]
  define inner where "inner = interior ng al"
  have inner: "inner = take (length inner - ng) inner @ last_rows ng inner"
    by (simp add: last_rows_def)
  have len: "length (last_rows ng inner) = ng" using sp(4) by (simp add: last_rows_def inner_def)
  have "al = (take ng al @ take (length inner - ng) inner) @ last_rows ng inner @ last_rows ng al"
    using sp(1) inner unfolding inner_def by (metis append.assoc)
  then have "py_slice al (Some (- 2 * int ng)) (Some (- int ng))
      = py_slice ((take ng al @ take (length inner - ng) inner) @ last_rows ng inner @ last_rows ng al)
          (Some (- 2 * int ng)) (Some (- int ng))"
    by simp
  also have "\<dots> = last_rows ng inner"
    by (rule slice_interior_tail[OF len sp(3) assms(1)])
  finally show ?thesis by (simp add: inner_def)
qed

lemma read_interior_head:
  assumes "length l = ng" "ng \<le> length inner"
  shows "py_slice (l @ inner @ r) (Some (int ng)) (Some (2 * int ng)) = take ng inner"
proof -
  have "inner = take ng inner @ drop ng inner" by simp
  then have eq: "l @ inner @ r = l @ take ng inner @ (drop ng inner @ r)"
    by (metis append.assoc)
  have "length (take ng inner) = ng" using assms(2) by simp
  from slice_interior_head[OF assms(1) this, of "drop ng inner @ r"] show ?thesis
    unfolding eq .
qed

lemma write_left_guard:
  assumes "length l = ng" "length v = ng"
  shows "py_slice_assign (l @ inner @ r) None (Some (int ng)) v = Inr (v @ inner @ r)"
  by (rule slice_left_guard_assign[OF assms])

lemma write_right_guard:
  assumes "length r = ng" "length w = ng" "0 < ng"
  shows "py_slice_assign (l @ inner @ r) (Some (- int ng)) None w = Inr (l @ inner @ w)"
  using slice_right_guard_assign[OF assms, of "l @ inner"] by simp

lemma outflow_left_sandwich:
  assumes "length l = ng" "inner \<noteq> []"
  shows "outflow_left ng (l @ inner @ r) = Inr (replicate ng (hd inner) @ inner @ r)"
proof -
  obtain x rest where inner: "inner = x # rest" using assms(2) by (cases inner) auto
  show ?thesis
    unfolding inner using outflow_left_closed[OF assms(1), of x "rest @ r"] by simp
qed

lemma outflow_right_sandwich:
  assumes "length r = ng" "inner \<noteq> []"
  shows "outflow_right ng (l @ inner @ r) = Inr (l @ inner @ replicate ng (last inner))"
proof -
  obtain front y where inner: "inner = front @ [y]"
    using assms(2) by (metis append_butlast_last_id)
  show ?thesis
    unfolding inner using outflow_right_closed[OF assms(1), of "l @ front" y] by simp
qed

lemma getattr_buffer:
  assumes "is_buffer name"
  shows "getattr_array p name = Inr (the_array p name)"
  using assms by (auto simp: is_buffer_def the_array_def getattr_array_def)

lemma the_array_store:
  assumes "is_buffer name"
  shows "the_array (store_array p name a) name = a"
  using assms by (auto simp: is_buffer_def the_array_def getattr_array_def store_array_def)

lemma store_array_twice: "store_array (store_array p name a) name b = store_array p name b"
  by (simp add: store_array_def)

lemma store_array_same:
  assumes "is_buffer name"
  shows "store_array p name (the_array p name) = p"
  using assms by (auto simp: is_buffer_def the_array_def getattr_array_def store_array_def)

lemma patches_store_patch_array:
  "patches (store_patch_array s name i a) = (patches s)[i := store_array (patches s ! i) name a]"
  by (simp add: store_patch_array_def)

lemma set_bc_patch_closed:
  assumes buf: "is_buffer name" and ng: "0 < num_guard s"
    and wide: "\<forall>p \<in> set (patches s). 3 * num_guard s \<le> length (the_array p name)"
    and i0: "i0 < length (patches s)" and il: "il < length (patches s)"
    and ir: "ir < length (patches s)"
  shows "set_bc_patch s name il i0 ir =
    Inr (store_patch_array s name i0
       ((if i0 = 0 then replicate (num_guard s) (hd (interior (num_guard s) (the_array (patches s ! i0) name)))
         else last_rows (num_guard s) (interior (num_guard s) (the_array (patches s ! il) name)))
        @ interior (num_guard s) (the_array (patches s ! i0) name)
        @ (if i0 = length (patches s) - 1
           then replicate (num_guard s) (last (interior (num_guard s) (the_array (patches s ! i0) name)))
           else take (num_guard s) (interior (num_guard s) (the_array (patches s ! ir) name)))))"
proof -
  define g where "g = num_guard s"
  define al where "al = the_array (patches s ! il) name"
  define ac where "ac = the_array (patches s ! i0) name"
  define ar where "ar = the_array (patches s ! ir) name"
  define inner where "inner = interior g ac"
  define v1 where "v1 = last_rows g (interior g al)"
  define v2 where "v2 = take g (interior g ar)"
  have g: "0 < g" using ng by (simp add: g_def)
  have wl: "3 * g \<le> length al" using wide il by (simp add: al_def g_def)
  have wc: "3 * g \<le> length ac" using wide i0 by (simp add: ac_def g_def)
  have wr: "3 * g \<le> length ar" using wide ir by (simp add: ar_def g_def)
  note sc = array_split[OF g wc, folded inner_def]
  note sl = array_split[OF g wl]
  note sr = array_split[OF g wr]
  have inner_ne: "inner \<noteq> []" using sc(4) g by auto
  have lv1: "length v1 = g" using sl(4) by (simp add: v1_def last_rows_def)
  have lv2: "length v2 = g" using sr(4) by (simp add: v2_def)
  have r1: "py_slice al (Some (- 2 * int g)) (Some (- int g)) = v1"
    unfolding v1_def by (rule read_interior_tail[OF g wl])
  have "py_slice_assign (take g ac @ inner @ last_rows g ac) None (Some (int g)) v1
          = Inr (v1 @ inner @ last_rows g ac)"
    by (rule write_left_guard[OF sc(2) lv1])
  then have w1: "py_slice_assign ac None (Some (int g)) v1 = Inr (v1 @ inner @ last_rows g ac)"
    using sc(1) by simp
  define pc1 where "pc1 = v1 @ inner @ last_rows g ac"
  have pr: "the_array (patches (store_patch_array s name i0 pc1) ! ir) name
              = (if ir = i0 then pc1 else ar)"
    using i0 ir buf
    by (simp add: patches_store_patch_array nth_list_update the_array_store ar_def)
  have r2: "py_slice (if ir = i0 then pc1 else ar) (Some (int g)) (Some (2 * int g)) = v2"
  proof (cases "ir = i0")
    case True
    then have "ar = ac" by (simp add: ar_def ac_def)
    then have "v2 = take g inner" by (simp add: v2_def inner_def)
    then show ?thesis
      using True read_interior_head[OF lv1 sc(4), of "last_rows g ac"] by (simp add: pc1_def)
  next
    case False
    have "py_slice (take g ar @ interior g ar @ last_rows g ar) (Some (int g)) (Some (2 * int g))
            = take g (interior g ar)"
      by (rule read_interior_head[OF sr(2) sr(4)])
    then show ?thesis using False sr(1) by (simp add: v2_def)
  qed
  have w2: "py_slice_assign pc1 (Some (- int g)) None v2 = Inr (v1 @ inner @ v2)"
    unfolding pc1_def by (rule write_right_guard[OF sc(3) lv2 g])
  define lft where "lft = (if i0 = 0 then replicate g (hd inner) else v1)"
  have ll: "length lft = g" using lv1 by (simp add: lft_def)
  define pc3 where "pc3 = lft @ inner @ v2"
  have o1: "(if i0 = 0 then outflow_left g (v1 @ inner @ v2) else Inr (v1 @ inner @ v2)) = Inr pc3"
    using outflow_left_sandwich[OF lv1 inner_ne, of v2] by (simp add: pc3_def lft_def)
  define pc4 where
    "pc4 = lft @ inner @ (if i0 = length (patches s) - 1 then replicate g (last inner) else v2)"
  have last_iff: "(int i0 = int (length (patches s)) - 1) = (i0 = length (patches s) - 1)"
    using i0 by auto
  have o2: "(if int i0 = int (length (patches s)) - 1 then outflow_right g pc3 else Inr pc3) = Inr pc4"
  proof (cases "i0 = length (patches s) - 1")
    case True
    then show ?thesis
      unfolding last_iff pc3_def pc4_def
      using outflow_right_sandwich[OF lv2 inner_ne, of lft] by simp
  next
    case False
    then show ?thesis unfolding last_iff pc3_def pc4_def by simp
  qed
  have "set_bc_patch s name il i0 ir = Inr (store_patch_array s name i0 pc4)"
    unfolding set_bc_patch_def Let_def g_def[symmetric]
      getattr_buffer[OF buf] al_def[symmetric] ac_def[symmetric] r1 w1 and_then_Inr
      pc1_def[symmetric] pr r2 w2 o1 o2 by simp
  then show ?thesis
    by (simp add: pc4_def lft_def g_def inner_def v1_def v2_def ac_def al_def ar_def)
qed

lemma wide_patches_nth:
  assumes "wide_patches ng as" "i < length as"
  shows "0 < ng" "3 * ng \<le> length (as ! i)"
  using assms by (auto simp add: wide_patches_def list_all_length)

lemma exchanged_array_shape:
  assumes "wide_patches ng as" "i < length as"
  shows "interior ng (exchanged_array ng as i) = interior ng (as ! i)"
    and "length (exchanged_array ng as i) = length (as ! i)"
proof -
  let ?n = "length as"
  have n: "0 < ?n" using assms(2) by linarith
  have il: "(i + ?n - 1) mod ?n < ?n" and ir: "(i + ?n + 1) mod ?n < ?n" using n by simp_all
  note g = wide_patches_nth(1)[OF assms]
  note wi = array_split[OF g wide_patches_nth(2)[OF assms]]
  note wl = array_split[OF g wide_patches_nth(2)[OF assms(1) il]]
  note wr = array_split[OF g wide_patches_nth(2)[OF assms(1) ir]]
  define left where "left = (if i = 0 then replicate ng (hd (interior ng (as ! i)))
                 else last_rows ng (interior ng (as ! ((i + ?n - 1) mod ?n))))"
  define right where "right = (if i = ?n - 1 then replicate ng (last (interior ng (as ! i)))
                  else take ng (interior ng (as ! ((i + ?n + 1) mod ?n))))"
  have ll: "length left = ng" using wl(4) by (simp add: left_def last_rows_def)
  have lr: "length right = ng" using wr(4) by (simp add: right_def)
  have ex: "exchanged_array ng as i = left @ interior ng (as ! i) @ right"
    by (simp add: exchanged_array_def Let_def left_def right_def)
  show "interior ng (exchanged_array ng as i) = interior ng (as ! i)"
    unfolding ex by (rule interior_sandwich[OF ll lr])
  show "length (exchanged_array ng as i) = length (as ! i)"
    unfolding ex using ll lr wi(5) wide_patches_nth(2)[OF assms] by simp
qed

lemma exchanged_array_cong:
  assumes len: "length as = length bs" and k: "k < length as"
    and int: "\<And>i. i < length as \<Longrightarrow> interior ng (as ! i) = interior ng (bs ! i)"
  shows "exchanged_array ng as k = exchanged_array ng bs k"
proof -
  let ?n = "length as"
  have n: "0 < ?n" using k by linarith
  have il: "(k + ?n - 1) mod ?n < ?n" and ir: "(k + ?n + 1) mod ?n < ?n" using n by simp_all
  have "exchanged_array ng as k =
      (if k = 0 then replicate ng (hd (interior ng (as ! k)))
       else last_rows ng (interior ng (as ! ((k + ?n - 1) mod ?n))))
      @ interior ng (as ! k)
      @ (if k = ?n - 1 then replicate ng (last (interior ng (as ! k)))
         else take ng (interior ng (as ! ((k + ?n + 1) mod ?n))))"
    by (simp only: exchanged_array_def Let_def)
  also have "\<dots> =
      (if k = 0 then replicate ng (hd (interior ng (bs ! k)))
       else last_rows ng (interior ng (bs ! ((k + ?n - 1) mod ?n))))
      @ interior ng (bs ! k)
      @ (if k = ?n - 1 then replicate ng (last (interior ng (bs ! k)))
         else take ng (interior ng (bs ! ((k + ?n + 1) mod ?n))))"
    by (simp only: int[OF il] int[OF ir] int[OF k])
  also have "\<dots> = exchanged_array ng bs k"
    by (simp only: exchanged_array_def Let_def len)
  finally show ?thesis .
qed

lemma set_bc_step_closed:
  assumes buf: "is_buffer name"
    and wide: "wide_patches (num_guard t) (arrays_of t name)"
    and k: "k < length (patches t)"
  shows "(let num_patches = length (patches t);
              il = (k + num_patches - 1) mod num_patches;
              ir = (k + num_patches + 1) mod num_patches
          in set_bc_patch t name il k ir)
         = Inr (store_patch_array t name k (exchanged_array (num_guard t) (arrays_of t name) k))"
proof -
  let ?n = "length (patches t)"
  have n: "0 < ?n" using k by linarith
  have il: "(k + ?n - 1) mod ?n < ?n" and ir: "(k + ?n + 1) mod ?n < ?n" using n by simp_all
  have ng: "0 < num_guard t" using wide by (simp add: wide_patches_def)
  have w: "\<forall>p \<in> set (patches t). 3 * num_guard t \<le> length (the_array p name)"
    using wide by (simp add: wide_patches_def arrays_of_def list_all_iff)
  have la: "length (arrays_of t name) = ?n" by (simp add: arrays_of_def)
  have nth: "\<And>i. i < ?n \<Longrightarrow> arrays_of t name ! i = the_array (patches t ! i) name"
    by (simp add: arrays_of_def)
  show ?thesis
    by (simp only: Let_def set_bc_patch_closed[OF buf ng w k il ir] exchanged_array_def
        la nth[OF il] nth[OF ir] nth[OF k])
qed

lemma set_bc_prefix:
  assumes buf: "is_buffer name"
    and wide: "wide_patches (num_guard s) (arrays_of s name)"
    and k: "k \<le> length (patches s)"
  shows "fold_err (\<lambda>i0 s. let num_patches = length (patches s);
                            il = (i0 + num_patches - 1) mod num_patches;
                            ir = (i0 + num_patches + 1) mod num_patches
                        in set_bc_patch s name il i0 ir) [0..<k] s
         = Inr (s\<lparr>patches :=
                  map (\<lambda>i. if i < k
                            then store_array (patches s ! i) name
                                   (exchanged_array (num_guard s) (arrays_of s name) i)
                            else patches s ! i) [0..<length (patches s)]\<rparr>)"
  using k
proof (induction k)
  case 0
  show ?case by (simp add: map_nth)
next
  case (Suc k)
  let ?P = "length (patches s)"
  let ?ng = "num_guard s"
  let ?A = "arrays_of s name"
  let ?fin = "\<lambda>i. store_array (patches s ! i) name (exchanged_array ?ng ?A i)"
  define t where "t = s\<lparr>patches := map (\<lambda>i. if i < k then ?fin i else patches s ! i) [0..<?P]\<rparr>"
  have kP: "k < ?P" using Suc.prems by simp
  have IH: "fold_err (\<lambda>i0 s. let num_patches = length (patches s);
                            il = (i0 + num_patches - 1) mod num_patches;
                            ir = (i0 + num_patches + 1) mod num_patches
                        in set_bc_patch s name il i0 ir) [0..<k] s = Inr t"
    unfolding t_def using Suc.IH kP by simp
  have lt: "length (patches t) = ?P" by (simp add: t_def)
  have ngt: "num_guard t = ?ng" by (simp add: t_def)
  have lA: "length ?A = ?P" by (simp add: arrays_of_def)
  have lB: "length (arrays_of t name) = ?P" by (simp add: arrays_of_def lt)
  have nthA: "\<And>i. i < ?P \<Longrightarrow> ?A ! i = the_array (patches s ! i) name"
    by (simp add: arrays_of_def)
  have nthB: "\<And>i. i < ?P \<Longrightarrow> arrays_of t name ! i =
      (if i < k then exchanged_array ?ng ?A i else ?A ! i)"
    by (simp add: arrays_of_def t_def the_array_store[OF buf])
  have shape_int: "\<And>i. i < ?P \<Longrightarrow> interior ?ng (arrays_of t name ! i) = interior ?ng (?A ! i)"
    using exchanged_array_shape(1)[OF wide] by (simp add: nthB lA)
  have shape_len: "\<And>i. i < ?P \<Longrightarrow> length (arrays_of t name ! i) = length (?A ! i)"
    using exchanged_array_shape(2)[OF wide] by (simp add: nthB lA)
  have widet: "wide_patches (num_guard t) (arrays_of t name)"
    using wide shape_len lA lB
    by (auto simp add: wide_patches_def list_all_length ngt)
  have ex: "exchanged_array ?ng (arrays_of t name) k = exchanged_array ?ng ?A k"
    by (rule exchanged_array_cong) (simp_all add: lA lB kP shape_int)
  have kt: "k < length (patches t)" using kP lt by simp
  have step: "(let num_patches = length (patches t);
              il = (k + num_patches - 1) mod num_patches;
              ir = (k + num_patches + 1) mod num_patches
          in set_bc_patch t name il k ir)
         = Inr (store_patch_array t name k (exchanged_array ?ng ?A k))"
    using set_bc_step_closed[OF buf widet kt] by (simp only: ngt ex)
  have tk: "patches t ! k = patches s ! k" using kP by (simp add: t_def)
  have upd: "store_patch_array t name k (exchanged_array ?ng ?A k)
      = s\<lparr>patches := map (\<lambda>i. if i < Suc k then ?fin i else patches s ! i) [0..<?P]\<rparr>"
  proof -
    have "(patches t)[k := ?fin k] = map (\<lambda>i. if i < Suc k then ?fin i else patches s ! i) [0..<?P]"
      by (rule nth_equalityI) (auto simp add: t_def nth_list_update less_Suc_eq)
    thus ?thesis by (simp add: store_patch_array_def tk) (simp add: t_def)
  qed
  have "[0..<Suc k] = [0..<k] @ [k]" by simp
  thus ?case
    by (simp only: fold_err_append IH and_then_Inr fold_err.simps step upd)
qed

lemma set_bc_closed:
  assumes buf: "is_buffer name"
    and wide: "wide_patches (num_guard s) (arrays_of s name)"
  shows "set_bc s name = Inr (exchange_by_spec s name)"
proof -
  have "\<And>i. i < length (patches s) \<Longrightarrow>
      map (exchanged_array (num_guard s) (arrays_of s name)) [0..<length (patches s)] ! i
      = exchanged_array (num_guard s) (arrays_of s name) i"
    by simp
  thus ?thesis
    unfolding set_bc_def set_bc_prefix[OF buf wide order_refl] exchange_by_spec_def
      with_arrays_def
    by simp
qed

lemma arrays_of_exchange:
  assumes buf: "is_buffer name"
  shows "arrays_of (exchange_by_spec s name) name
    = map (exchanged_array (num_guard s) (arrays_of s name)) [0..<length (patches s)]"
  by (simp add: exchange_by_spec_def with_arrays_def arrays_of_def the_array_store[OF buf])

lemma exchange_by_spec_idem:
  assumes buf: "is_buffer name"
    and wide: "wide_patches (num_guard s) (arrays_of s name)"
  shows "wide_patches (num_guard (exchange_by_spec s name))
           (arrays_of (exchange_by_spec s name) name)"
    and "exchange_by_spec (exchange_by_spec s name) name = exchange_by_spec s name"
proof -
  let ?P = "length (patches s)"
  let ?ng = "num_guard s"
  let ?A = "arrays_of s name"
  let ?t = "exchange_by_spec s name"
  let ?B = "arrays_of ?t name"
  have lA: "length ?A = ?P" by (simp add: arrays_of_def)
  have B: "?B = map (exchanged_array ?ng ?A) [0..<?P]" by (rule arrays_of_exchange[OF buf])
  have lB: "length ?B = ?P" by (simp add: B)
  have ngt: "num_guard ?t = ?ng" by (simp add: exchange_by_spec_def with_arrays_def)
  have lt: "length (patches ?t) = ?P" by (simp add: exchange_by_spec_def with_arrays_def)
  have shape_int: "\<And>i. i < ?P \<Longrightarrow> interior ?ng (?B ! i) = interior ?ng (?A ! i)"
    using exchanged_array_shape(1)[OF wide] by (simp add: B lA)
  have shape_len: "\<And>i. i < ?P \<Longrightarrow> length (?B ! i) = length (?A ! i)"
    using exchanged_array_shape(2)[OF wide] by (simp add: B lA)
  show w: "wide_patches (num_guard ?t) ?B"
    using wide shape_len lA lB
    by (auto simp add: wide_patches_def list_all_length ngt)
  have ex: "\<And>i. i < ?P \<Longrightarrow> exchanged_array ?ng ?B i = exchanged_array ?ng ?A i"
    by (rule exchanged_array_cong) (simp_all add: lA lB shape_int)
  have pt: "\<And>i. i < ?P \<Longrightarrow> patches ?t ! i = store_array (patches s ! i) name (exchanged_array ?ng ?A i)"
    by (simp add: exchange_by_spec_def with_arrays_def)
  have "patches (exchange_by_spec ?t name) = patches ?t"
    by (rule nth_equalityI)
       (simp_all add: exchange_by_spec_def[of ?t] with_arrays_def[of ?t] lt ngt ex pt
          store_array_twice)
  thus "exchange_by_spec ?t name = ?t"
    by (simp add: exchange_by_spec_def[of ?t] with_arrays_def[of ?t])
qed

lemma py_range_rec: "py_range a b = (if a < b then a # py_range (a + 1) b else [])"
proof (cases "a < b")
  case True
  then obtain n where n: "nat (b - a) = Suc n" by (metis Suc_pred zero_less_diff zero_less_nat_eq diff_gt_0_iff_gt)
  have n': "nat (b - (a + 1)) = n" using n by linarith
  have "map (\<lambda>k. a + int k) [0..<Suc n] = a # map (\<lambda>k. a + 1 + int k) [0..<n]"
    by (simp add: upt_conv_Cons map_Suc_upt[symmetric] del: upt_Suc)
  thus ?thesis using True by (simp add: py_range_def n n' del: upt_Suc)
next
  case False
  thus ?thesis by (simp add: py_range_def)
qed

lemma getattr_example_patch:
  "getattr_array (example_patch ni r a) ''primitive1'' = Inr a"
  by (cases r) (simp add: getattr_array_def example_patch_def recompute_primitive_def
      Patch_init_def toy_library_def)

lemma getattr_store:
  "getattr_array (store_array p ''primitive1'' a) ''primitive1'' = Inr a"
  by (simp add: getattr_array_def store_array_def)

lemmas set_bc_eval =
  set_bc_def set_bc_patch_def Let_def
  store_patch_array_def getattr_example_patch getattr_store store_array_twice
  py_slice_def py_slice_assign_def slice_bound_def
  outflow_left_def outflow_right_def py_range_rec py_index_def py_index_assign_def
  py_position_def with_arrays_def fold_err_append

lemma set_bc_thin_once:
  "set_bc thin_solver ''primitive1'' = Inr (with_arrays thin_solver ''primitive1'' thin_once)"
  by (simp add: set_bc_eval thin_solver_def thin_array_def thin_once_def)

lemma set_bc_thin_twice:
  "set_bc (with_arrays thin_solver ''primitive1'' thin_once) ''primitive1''
     = Inr (with_arrays thin_solver ''primitive1'' thin_twice)"
  by (simp add: set_bc_eval thin_solver_def thin_once_def thin_twice_def)

lemma subdivide_3_3: "subdivide 3 3 = [(0, 1), (1, 2), (2, 3)]"
  by (simp add: subdivide_def upt_rec)

lemma mesh_shape_example: "mesh_shape (example_mesh ni) = (ni, 1)"
  by (simp add: example_mesh_def)

lemma outflow_setup_condition: "boundary_condition outflow_setup = ''outflow''"
  by (simp add: outflow_setup_def)

lemma replicate_2: "replicate 2 x = [x, x]"
  by (simp add: eval_nat_numeral)

lemma replicate_4: "replicate 4 x = [x, x, x, x]"
  by (simp add: eval_nat_numeral)

lemma thin_solver_reachable:
  "and_then (Solver_init toy_library 1 outflow_setup (example_mesh 3) 0 (Some thin_solution) 3)
      (\<lambda>s. Inr (for_each_patch recompute_primitive s)) = Inr thin_solver"
  by (simp add: Solver_init_def initial_conserved_def outflow_setup_condition
      mesh_shape_example subdivide_3_3 new_patch_def py_slice_def py_slice_assign_def slice_bound_def zeros3_def
      thin_solution_def for_each_patch_def thin_solver_def example_patch_def thin_array_def
      guard_row_def replicate_2 replicate_4)

lemma getattr_example_patch_the:
  "the_array (example_patch ni r a) ''primitive1'' = a"
  by (simp add: the_array_def getattr_example_patch)

lemma wide_arrays:
  "arrays_of wide_solver ''primitive1'' = [wide_array 1 2, wide_array 3 4]"
  by (simp add: arrays_of_def wide_solver_def getattr_example_patch_the)

lemma thin_arrays:
  "arrays_of thin_solver ''primitive1'' = [thin_array 1, thin_array 2, thin_array 3]"
  by (simp add: arrays_of_def thin_solver_def getattr_example_patch_the)

lemma primitive1_is_buffer: "is_buffer ''primitive1''"
  by (simp add: is_buffer_def)

lemma wide_solver_wide:
  "wide_patches (num_guard wide_solver) (arrays_of wide_solver ''primitive1'')"
  by (simp add: wide_arrays) (simp add: wide_solver_def wide_patches_def wide_array_def)

lemma wide_exchange:
  "exchange_by_spec wide_solver ''primitive1'' =
     with_arrays wide_solver ''primitive1''
       [[state_row 1, state_row 1, state_row 1, state_row 2, state_row 3, state_row 4],
        [state_row 1, state_row 2, state_row 3, state_row 4, state_row 4, state_row 4]]"
  by (simp add: exchange_by_spec_def wide_arrays)
     (simp add: wide_solver_def with_arrays_def exchanged_array_def Let_def interior_def
        last_rows_def wide_array_def replicate_2 mod_Suc)

lemma state_rows_differ: "state_row 1 \<noteq> state_row 2" "guard_row \<noteq> state_row 3"
  by (simp_all add: state_row_def guard_row_def)

text \<open>
  C7. On patches that each hold at least \<open>ng\<close> interior rows, the boundary exchange of any
  buffer succeeds and leaves every patch with its interior unchanged, the last \<open>ng\<close>
  interior rows of its left neighbour in its left guard rows and the first \<open>ng\<close> interior
  rows of its right neighbour in its right guard rows, the neighbours being taken modulo
  the number of patches; patch 0 has its first interior row replicated into its left guard
  rows instead, and the last patch its last interior row into its right guard rows.
\<close>

theorem set_bc_exchanges_guard_rows:
  assumes "is_buffer name" and "wide_patches (num_guard s) (arrays_of s name)"
  shows "set_bc s name = Inr (exchange_by_spec s name)"
  using assms by (rule set_bc_closed)

theorem set_bc_exchanges_guard_rows_witness:
  "is_buffer ''primitive1''
   \<and> wide_patches (num_guard wide_solver) (arrays_of wide_solver ''primitive1'')
   \<and> set_bc wide_solver ''primitive1'' =
       Inr (with_arrays wide_solver ''primitive1''
         [[state_row 1, state_row 1, state_row 1, state_row 2, state_row 3, state_row 4],
          [state_row 1, state_row 2, state_row 3, state_row 4, state_row 4, state_row 4]])"
  using set_bc_exchanges_guard_rows[of "''primitive1''" wide_solver]
  by (simp add: primitive1_is_buffer wide_solver_wide wide_exchange)

theorem set_bc_thin_patches_copy_guard_rows:
  "and_then (Solver_init toy_library 1 outflow_setup (example_mesh 3) 0 (Some thin_solution) 3)
      (\<lambda>s. Inr (for_each_patch recompute_primitive s)) = Inr thin_solver
   \<and> set_bc thin_solver ''primitive1'' = Inr (with_arrays thin_solver ''primitive1'' thin_once)
   \<and> take 2 (thin_once ! 2) = [state_row 1, state_row 2]
   \<and> interior 2 (arrays_of thin_solver ''primitive1'' ! 1) = [state_row 2]
   \<and> state_row 1 \<noteq> state_row 2"
proof (intro conjI)
  show "and_then (Solver_init toy_library 1 outflow_setup (example_mesh 3) 0 (Some thin_solution) 3)
      (\<lambda>s. Inr (for_each_patch recompute_primitive s)) = Inr thin_solver"
    by (rule thin_solver_reachable)
  show "set_bc thin_solver ''primitive1'' = Inr (with_arrays thin_solver ''primitive1'' thin_once)"
    by (rule set_bc_thin_once)
  show "take 2 (thin_once ! 2) = [state_row 1, state_row 2]"
    by (simp add: thin_once_def)
  show "interior 2 (arrays_of thin_solver ''primitive1'' ! 1) = [state_row 2]"
    by (simp add: thin_arrays interior_def thin_array_def)
  show "state_row 1 \<noteq> state_row 2"
    by (rule state_rows_differ)
qed

text \<open>
  C8. On patches that each hold at least \<open>ng\<close> interior rows, the boundary exchange of any
  buffer is idempotent: it succeeds, and a second exchange of the state it returns gives
  that same state back.
\<close>

theorem set_bc_idempotent:
  assumes "is_buffer name" and "wide_patches (num_guard s) (arrays_of s name)"
  shows "\<exists>s'. set_bc s name = Inr s' \<and> set_bc s' name = Inr s'"
proof -
  have "set_bc s name = Inr (exchange_by_spec s name)"
    using assms by (rule set_bc_closed)
  moreover have "set_bc (exchange_by_spec s name) name = Inr (exchange_by_spec s name)"
    using set_bc_closed[OF assms(1) exchange_by_spec_idem(1)[OF assms]]
    by (simp only: exchange_by_spec_idem(2)[OF assms])
  ultimately show ?thesis by blast
qed

theorem set_bc_idempotent_witness:
  "is_buffer ''primitive1''
   \<and> wide_patches (num_guard wide_solver) (arrays_of wide_solver ''primitive1'')
   \<and> (\<exists>s'. set_bc wide_solver ''primitive1'' = Inr s' \<and> set_bc s' ''primitive1'' = Inr s')"
  using set_bc_idempotent[of "''primitive1''" wide_solver]
  by (simp add: primitive1_is_buffer wide_solver_wide)

theorem set_bc_twice_changes_thin_guard_rows:
  "set_bc thin_solver ''primitive1'' = Inr (with_arrays thin_solver ''primitive1'' thin_once)
   \<and> set_bc (with_arrays thin_solver ''primitive1'' thin_once) ''primitive1''
       = Inr (with_arrays thin_solver ''primitive1'' thin_twice)
   \<and> last_rows 2 (thin_once ! 0) = [state_row 2, guard_row]
   \<and> last_rows 2 (thin_twice ! 0) = [state_row 2, state_row 3]
   \<and> guard_row \<noteq> state_row 3"
proof (intro conjI)
  show "set_bc thin_solver ''primitive1'' = Inr (with_arrays thin_solver ''primitive1'' thin_once)"
    by (rule set_bc_thin_once)
  show "set_bc (with_arrays thin_solver ''primitive1'' thin_once) ''primitive1''
       = Inr (with_arrays thin_solver ''primitive1'' thin_twice)"
    by (rule set_bc_thin_twice)
  show "last_rows 2 (thin_once ! 0) = [state_row 2, guard_row]"
    by (simp add: thin_once_def last_rows_def)
  show "last_rows 2 (thin_twice ! 0) = [state_row 2, state_row 3]"
    by (simp add: thin_twice_def last_rows_def)
  show "guard_row \<noteq> state_row 3"
    by (rule state_rows_differ)
qed

section \<open>The constructor, the global wavespeed and the Runge-Kutta driver\<close>









lemma for_each_patch_prefix:
  assumes "k \<le> length (patches s)"
  shows "fold (\<lambda>i s. s\<lparr>patches := (patches s)[i := f (patches s ! i)]\<rparr>) [0..<k] s
         = s\<lparr>patches := map f (take k (patches s)) @ drop k (patches s)\<rparr>"
  using assms
proof (induction k)
  case 0
  show ?case by simp
next
  case (Suc k)
  have k: "k < length (patches s)" using Suc.prems by simp
  have nth: "(map f (take k (patches s)) @ drop k (patches s)) ! k = patches s ! k"
    using k by (simp add: nth_append)
  have upd: "(map f (take k (patches s)) @ drop k (patches s))[k := f (patches s ! k)]
      = map f (take (Suc k) (patches s)) @ drop (Suc k) (patches s)"
    using k by (simp add: list_update_append take_Suc_conv_app_nth upd_conv_take_nth_drop
        drop_Suc tl_drop)
  show ?case
    using Suc.IH k by (simp add: nth upd)
qed

lemma for_each_patch_map: "for_each_patch f s = s\<lparr>patches := map f (patches s)\<rparr>"
  by (simp add: for_each_patch_def for_each_patch_prefix)

lemma Solver_advance_rk_stage: "Solver_advance_rk rk_param dt s = stage_by_spec rk_param dt s"
  by (simp add: Solver_advance_rk_def stage_by_spec_def for_each_patch_map)

lemma Solver_advance_schedule: "Solver_advance s dt = advance_by_schedule bs_rk2 s dt"
  by (simp add: Solver_advance_def advance_by_schedule_def Solver_new_iteration_def
      for_each_patch_map Solver_advance_rk_stage)

lemma subdivide_4_2: "subdivide 4 2 = [(0, 2), (2, 4)]"
  by (simp add: subdivide_def upt_rec)

lemma counting_solver_built:
  "Solver_init counting_library 1 outflow_setup (example_mesh 4) 0 (Some wide_solution) 2
     = Inr counting_solver"
  by (simp add: Solver_init_def initial_conserved_def outflow_setup_condition
      mesh_shape_example subdivide_4_2 new_patch_def py_slice_def py_slice_assign_def
      slice_bound_def zeros3_def wide_solution_def counting_solver_def wide_array_def
      guard_row_def replicate_2 replicate_4)

lemma counting_patch_maximum:
  assumes "j - i = 2"
  shows "\<exists>q. Patch_maximum_wavespeed (Patch_init 0 a (example_mesh 4) (i, j) counting_library 0)
     = Inr (1 / 2, q)"
  by (simp add: Patch_maximum_wavespeed_def Let_def recompute_primitive_def Patch_init_def
      counting_library_def zeros2_def mesh_shape_example array_max_def replicate_2 assms)

lemma counting_solver_maxima:
  "maximum_wavespeed_by_spec counting_solver = Inr (1 / 2)"
proof -
  obtain q1 where q1: "Patch_maximum_wavespeed
      (Patch_init 0 (wide_array 1 2) (example_mesh 4) (0, 2) counting_library 0) = Inr (1 / 2, q1)"
    using counting_patch_maximum[of 2 0 "wide_array 1 2"] by auto
  obtain q2 where q2: "Patch_maximum_wavespeed
      (Patch_init 0 (wide_array 3 4) (example_mesh 4) (2, 4) counting_library 0) = Inr (1 / 2, q2)"
    using counting_patch_maximum[of 4 2 "wide_array 3 4"] by auto
  show ?thesis
    by (simp add: maximum_wavespeed_by_spec_def counting_solver_def q1 q2)
qed

text \<open>
  C9. \<^verbatim>\<open>Solver.maximum_wavespeed()\<close> returns the constant 1, the speed of light, for every
  solver: it does not ask the patches, and replacing them does not change what it returns.
\<close>

theorem Solver_maximum_wavespeed_is_constant:
  "Solver_maximum_wavespeed s = 1
   \<and> Solver_maximum_wavespeed (s\<lparr>patches := ps\<rparr>) = Solver_maximum_wavespeed s"
  by (simp add: Solver_maximum_wavespeed_def)

theorem Solver_maximum_wavespeed_ignores_patches:
  "Solver_init counting_library 1 outflow_setup (example_mesh 4) 0 (Some wide_solution) 2
     = Inr counting_solver
   \<and> maximum_wavespeed_by_spec counting_solver = Inr (1 / 2)
   \<and> Solver_maximum_wavespeed counting_solver = 1"
proof (intro conjI)
  show "Solver_init counting_library 1 outflow_setup (example_mesh 4) 0 (Some wide_solution) 2
     = Inr counting_solver"
    by (rule counting_solver_built)
  show "maximum_wavespeed_by_spec counting_solver = Inr (1 / 2)"
    by (rule counting_solver_maxima)
  show "Solver_maximum_wavespeed counting_solver = 1"
    by (simp add: Solver_maximum_wavespeed_def)
qed

lemma counting_stage:
  assumes ng: "num_guard s = 2" and ne: "patches s \<noteq> []"
    and inv: "\<And>p. p \<in> set (patches s) \<Longrightarrow> lib p = counting_library \<and> 6 \<le> length (conserved1 p)"
  shows "\<exists>s'. stage_by_spec b dt s = Inr s' \<and> num_guard s' = 2
           \<and> (\<forall>p \<in> set (patches s'). lib p = counting_library)
           \<and> map conserved1 (patches s')
               = map (\<lambda>p. map (map (map (\<lambda>u. u + 1))) (conserved1 p)) (patches s)"
proof -
  let ?n = "length (patches s)"
  define s1 where "s1 = s\<lparr>patches := map recompute_primitive (patches s)\<rparr>"
  have buf: "is_buffer ''primitive1''" by (rule primitive1_is_buffer)
  have arr: "arrays_of s1 ''primitive1'' = map conserved1 (patches s)"
    using inv
    by (simp add: arrays_of_def s1_def the_array_def getattr_array_def recompute_primitive_def
        counting_library_def)
  have ng1: "num_guard s1 = 2" by (simp add: s1_def ng)
  have wide: "wide_patches (num_guard s1) (arrays_of s1 ''primitive1'')"
    using inv ne by (simp add: arr ng1 wide_patches_def list_all_iff)
  have bc: "set_bc s1 ''primitive1'' = Inr (exchange_by_spec s1 ''primitive1'')"
    by (rule set_bc_closed[OF buf wide])
  define s2 where "s2 = exchange_by_spec s1 ''primitive1''"
  define s3 where "s3 = s2\<lparr>patches := map (Patch_advance_rk b dt) (patches s2)\<rparr>"
  have stage: "stage_by_spec b dt s = Inr s3"
    by (simp add: stage_by_spec_def s1_def[symmetric] bc s2_def s3_def)
  have l3: "length (patches s3) = ?n"
    by (simp add: s3_def s2_def exchange_by_spec_def with_arrays_def s1_def)
  have nth3: "\<And>i. i < ?n \<Longrightarrow> \<exists>a. patches s3 ! i
      = Patch_advance_rk b dt (store_array (recompute_primitive (patches s ! i)) ''primitive1'' a)"
    by (auto simp add: s3_def s2_def exchange_by_spec_def with_arrays_def s1_def)
  have field: "\<And>q a. lib (Patch_advance_rk b dt (store_array (recompute_primitive q) ''primitive1'' a)) = lib q"
    "\<And>q a. lib q = counting_library \<Longrightarrow>
       conserved1 (Patch_advance_rk b dt (store_array (recompute_primitive q) ''primitive1'' a))
         = map (map (map (\<lambda>u. u + 1))) (conserved1 q)"
    by (simp_all add: Patch_advance_rk_def Let_def store_array_def recompute_primitive_def
        counting_library_def)
  have libs: "\<forall>p \<in> set (patches s3). lib p = counting_library"
  proof
    fix p assume "p \<in> set (patches s3)"
    then obtain i where i: "i < ?n" "p = patches s3 ! i"
      by (auto simp add: in_set_conv_nth l3)
    obtain a where a: "patches s3 ! i
      = Patch_advance_rk b dt (store_array (recompute_primitive (patches s ! i)) ''primitive1'' a)"
      using nth3[OF i(1)] by auto
    show "lib p = counting_library"
      using inv[of "patches s ! i"] i(1) by (simp add: i(2) a field(1))
  qed
  have cons: "map conserved1 (patches s3)
               = map (\<lambda>p. map (map (map (\<lambda>u. u + 1))) (conserved1 p)) (patches s)"
  proof (rule nth_equalityI)
    show "length (map conserved1 (patches s3))
        = length (map (\<lambda>p. map (map (map (\<lambda>u. u + 1))) (conserved1 p)) (patches s))"
      by (simp add: l3)
  next
    fix i assume "i < length (map conserved1 (patches s3))"
    hence i: "i < ?n" by (simp add: l3)
    obtain a where a: "patches s3 ! i
      = Patch_advance_rk b dt (store_array (recompute_primitive (patches s ! i)) ''primitive1'' a)"
      using nth3[OF i] by auto
    have "lib (patches s ! i) = counting_library" using inv[of "patches s ! i"] i by simp
    thus "map conserved1 (patches s3) ! i
        = map (\<lambda>p. map (map (map (\<lambda>u. u + 1))) (conserved1 p)) (patches s) ! i"
      using i by (simp add: l3 a field(2))
  qed
  have "num_guard s3 = 2"
    by (simp add: s3_def s2_def exchange_by_spec_def with_arrays_def s1_def ng)
  thus ?thesis using stage libs cons by blast
qed

lemma counting_schedule:
  assumes ng: "num_guard s = 2" and ne: "patches s \<noteq> []"
    and inv: "\<And>p. p \<in> set (patches s) \<Longrightarrow> lib p = counting_library \<and> 6 \<le> length (conserved1 p)"
  shows "\<exists>s'. fold_err (\<lambda>b s. stage_by_spec b dt s) bs s = Inr s' \<and> num_guard s' = 2
           \<and> map conserved1 (patches s')
               = map (\<lambda>p. map (map (map (\<lambda>u. u + real (length bs)))) (conserved1 p)) (patches s)"
  using assms
proof (induction bs arbitrary: s)
  case Nil
  show ?case using Nil.prems(1) by (simp add: map_idI)
next
  case (Cons b bs)
  obtain s1 where s1: "stage_by_spec b dt s = Inr s1" "num_guard s1 = 2"
      "\<forall>p \<in> set (patches s1). lib p = counting_library"
      "map conserved1 (patches s1)
         = map (\<lambda>p. map (map (map (\<lambda>u. u + 1))) (conserved1 p)) (patches s)"
    using counting_stage[OF Cons.prems, of b dt] by blast
  have len: "length (patches s1) = length (patches s)"
    using arg_cong[OF s1(4), of length] by simp
  have ne1: "patches s1 \<noteq> []" using len Cons.prems(2) by auto
  have nth1: "\<And>i. i < length (patches s) \<Longrightarrow>
      conserved1 (patches s1 ! i) = map (map (map (\<lambda>u. u + 1))) (conserved1 (patches s ! i))"
  proof -
    fix i assume i: "i < length (patches s)"
    have "map conserved1 (patches s1) ! i
        = map (\<lambda>p. map (map (map (\<lambda>u. u + 1))) (conserved1 p)) (patches s) ! i"
      by (simp only: s1(4))
    thus "conserved1 (patches s1 ! i) = map (map (map (\<lambda>u. u + 1))) (conserved1 (patches s ! i))"
      using i len by simp
  qed
  have inv1: "\<And>p. p \<in> set (patches s1) \<Longrightarrow> lib p = counting_library \<and> 6 \<le> length (conserved1 p)"
  proof -
    fix p assume p: "p \<in> set (patches s1)"
    then obtain i where i: "i < length (patches s)" "p = patches s1 ! i"
      by (auto simp add: in_set_conv_nth len)
    have "6 \<le> length (conserved1 (patches s ! i))" using Cons.prems(3)[of "patches s ! i"] i(1) by simp
    thus "lib p = counting_library \<and> 6 \<le> length (conserved1 p)"
      using s1(3) p by (simp add: i(2) nth1[OF i(1)])
  qed
  obtain s2 where s2: "fold_err (\<lambda>b s. stage_by_spec b dt s) bs s1 = Inr s2" "num_guard s2 = 2"
      "map conserved1 (patches s2)
         = map (\<lambda>p. map (map (map (\<lambda>u. u + real (length bs)))) (conserved1 p)) (patches s1)"
    using Cons.IH[OF s1(2) ne1 inv1] by blast
  have "map conserved1 (patches s2)
      = map (\<lambda>p. map (map (map (\<lambda>u. u + real (length (b # bs))))) (conserved1 p)) (patches s)"
  proof (rule nth_equalityI)
    show "length (map conserved1 (patches s2))
      = length (map (\<lambda>p. map (map (map (\<lambda>u. u + real (length (b # bs))))) (conserved1 p)) (patches s))"
      using arg_cong[OF s2(3), of length] len by simp
  next
    fix i assume "i < length (map conserved1 (patches s2))"
    hence i: "i < length (patches s)" using arg_cong[OF s2(3), of length] len by simp
    have "map conserved1 (patches s2) ! i
        = map (map (map (\<lambda>u. u + real (length bs)))) (conserved1 (patches s1 ! i))"
      using i len by (simp add: s2(3))
    also have "\<dots> = map (map (map (\<lambda>u. u + real (length (b # bs))))) (conserved1 (patches s ! i))"
      by (simp add: nth1[OF i] comp_def add.assoc add.commute)
    finally show "map conserved1 (patches s2) ! i
      = map (\<lambda>p. map (map (map (\<lambda>u. u + real (length (b # bs))))) (conserved1 p)) (patches s) ! i"
      using i by simp
  qed
  thus ?case using s1(1) s2(1,2) by simp
qed

lemma counting_advance:
  "first_interior_number (advance_by_schedule bs counting_solver dt) = Inr (1 + real (length bs))"
proof -
  define s0 where "s0 = counting_solver\<lparr>patches := map Patch_new_iteration (patches counting_solver)\<rparr>"
  have ng: "num_guard s0 = 2" by (simp add: s0_def counting_solver_def)
  have ps: "patches s0 =
      [Patch_new_iteration (Patch_init 0 (wide_array 1 2) (example_mesh 4) (0, 2) counting_library 0),
       Patch_new_iteration (Patch_init 0 (wide_array 3 4) (example_mesh 4) (2, 4) counting_library 0)]"
    by (simp add: s0_def counting_solver_def)
  have ne: "patches s0 \<noteq> []" by (simp add: ps)
  have inv: "\<And>p. p \<in> set (patches s0) \<Longrightarrow> lib p = counting_library \<and> 6 \<le> length (conserved1 p)"
    by (auto simp add: ps Patch_new_iteration_def Patch_init_def wide_array_def)
  obtain s' where s': "fold_err (\<lambda>b s. stage_by_spec b dt s) bs s0 = Inr s'" "num_guard s' = 2"
      "map conserved1 (patches s')
         = map (\<lambda>p. map (map (map (\<lambda>u. u + real (length bs)))) (conserved1 p)) (patches s0)"
    using counting_schedule[OF ng ne inv, of dt bs] by blast
  have "map conserved1 (patches s') ! 0
      = map (\<lambda>p. map (map (map (\<lambda>u. u + real (length bs)))) (conserved1 p)) (patches s0) ! 0"
    by (simp only: s'(3))
  moreover have "patches s' \<noteq> []"
    using arg_cong[OF s'(3), of length] ne by auto
  ultimately have "conserved1 (patches s' ! 0)
      = map (map (map (\<lambda>u. u + real (length bs)))) (wide_array 1 2)"
    by (simp add: ps Patch_new_iteration_def Patch_init_def nth_map)
  hence "conserved1 (patches s' ! 0) ! 2 ! 0 ! 0 = 1 + real (length bs)"
    by (simp add: wide_array_def state_row_def)
  thus ?thesis
    by (simp add: first_interior_number_def advance_by_schedule_def s0_def[symmetric] s')
qed

text \<open>
  C6. \<^verbatim>\<open>Solver.advance(dt)\<close> starts a new iteration on every patch and then always executes
  the two-stage schedule \<open>[0, 1/2]\<close>: for each of the two weights in order it recomputes the
  primitives on every patch, runs the boundary exchange over all patches, and then calls
  \<^verbatim>\<open>advance_rk\<close> on every patch with that weight. The schedules \<open>[0]\<close> and
  \<open>[0, 3/4, 1/3]\<close> are defined in the method and never executed.
\<close>

theorem Solver_advance_runs_two_stages:
  "Solver_advance s dt = advance_by_schedule [0, 1 / 2] s dt"
  by (simp add: Solver_advance_schedule bs_rk2_def)

theorem Solver_advance_schedule_not_selectable:
  "first_interior_number (Solver_advance counting_solver 1) = Inr 3
   \<and> first_interior_number (advance_by_schedule bs_rk1 counting_solver 1) = Inr 2
   \<and> first_interior_number (advance_by_schedule bs_rk3 counting_solver 1) = Inr 4"
  by (simp add: Solver_advance_schedule counting_advance bs_rk1_def bs_rk2_def bs_rk3_def)

end
